theory Spec2Isabelle
  imports Main "HOL-Library.Char_ord" "HOL-Library.List_Lexorder"
begin

section \<open>Data model\<close>

text \<open>
  The development follows \<^verbatim>\<open>src/CdBG_GFA_Writer.cpp\<close>, the writer of the compacted de
  Bruijn graph in GFA format. Its header \<^verbatim>\<open>CdBG.hpp\<close> and the classes it uses
  (\<^verbatim>\<open>Kmer\<close>, \<^verbatim>\<open>Annotated_Kmer\<close>, \<^verbatim>\<open>Oriented_Unitig\<close>, \<^verbatim>\<open>State\<close>,
  \<^verbatim>\<open>Kmer_Hash_Table\<close>) are not among the source files; what the writer needs of them is
  either a parameter (the record \<open>Env\<close>) or a definition that follows the specification
  and says so.

  A value of type \<^verbatim>\<open>size_t\<close>, \<^verbatim>\<open>uint64_t\<close> or \<^verbatim>\<open>uint16_t\<close> is a natural number.
  Every index the writer computes is at most the length of the sequence it reads, and the
  statements below carry the bounds (\<open>0 < k\<close>, \<open>start \<le> end\<close>, \<open>end + k \<le> length seq\<close>)
  under which no subtraction goes below zero; a read past the end of the sequence is the
  error \<open>OutOfBounds\<close>. Messages on \<^verbatim>\<open>std::cout\<close> and \<^verbatim>\<open>std::cerr\<close> and the timers are
  left out.
\<close>

datatype error =
    InvalidNucleotide   \<comment> \<open>\<^verbatim>\<open>complement\<close> of a symbol other than A, C, G, T\<close>
  | OutOfBounds         \<comment> \<open>a read of \<^verbatim>\<open>seq[i]\<close> with \<open>i\<close> not below the length\<close>
  | SpoolIOError        \<comment> \<open>a temporary path or overlap file cannot be used\<close>
  | DivisionByZero      \<comment> \<open>\<^verbatim>\<open>thread_count\<close> is zero at line 90\<close>
  | Diverges            \<comment> \<open>the loop of \<^verbatim>\<open>output_gfa_off_substring\<close> does not advance\<close>

type_synonym kmer_t = string

datatype kmer_dir_t = FWD | BWD

text \<open>
  Modelled from the spec: the class \<^verbatim>\<open>State\<close> (section 3, "Vertex state"): the class of
  the vertex in the automaton, an opaque code here, and the one-bit flag \<open>outputted\<close>.
  \<open>outputted s\<close> is the state "old | outputted-bit" of section 5.
\<close>

datatype State = State (state_class: nat) (is_outputted: bool)

definition outputted :: "State \<Rightarrow> State" where
  "outputted s = State (state_class s) True"

text \<open>
  Modelled from the spec: the handle \<^verbatim>\<open>Kmer_Hash_Entry_API\<close> and the operations of the
  hash table (section 4.B). \<open>hash_table_entry\<close> is \<^verbatim>\<open>Vertices[bucket_id]\<close>: it loads the
  slot and remembers what it read; \<open>state\<close> is the copy \<^verbatim>\<open>get_state()\<close> hands out for
  modification; \<open>update\<close> is the compare-and-swap on the slot, successful exactly when the
  slot still holds what was read.
\<close>

record Kmer_Hash_Entry_API =
  bucket :: nat
  state_read :: State
  state :: State

definition hash_table_entry :: "(nat \<Rightarrow> State) \<Rightarrow> nat \<Rightarrow> Kmer_Hash_Entry_API" where
  "hash_table_entry tbl b = \<lparr>bucket = b, state_read = tbl b, state = tbl b\<rparr>"

definition update :: "(nat \<Rightarrow> State) \<Rightarrow> Kmer_Hash_Entry_API \<Rightarrow> (nat \<Rightarrow> State) \<times> bool" where
  "update tbl api =
     (if tbl (bucket api) = state_read api then (tbl(bucket api := state api), True)
      else (tbl, False))"

text \<open>
  Modelled from the spec: \<^verbatim>\<open>Annotated_Kmer\<close> (section 3, "Annotated k-mer"); the field
  \<^verbatim>\<open>dir\<close> of the class is \<open>kdir\<close> here, and \<^verbatim>\<open>dir\<close> is left to the oriented unitig.
\<close>

record Annotated_Kmer =
  kmer :: kmer_t
  rev_compl :: kmer_t
  canonical :: kmer_t
  idx :: nat
  kdir :: kmer_dir_t
  vertex_class :: nat

text \<open>
  \<^verbatim>\<open>Oriented_Unitig\<close>, built at line 319 from its four fields. The three witness slots of
  a thread are optional values (section 3, "Per-thread witnesses"): \<open>None\<close> is the
  default-constructed unitig, for which \<^verbatim>\<open>is_valid()\<close> is false.
\<close>

record Oriented_Unitig =
  unitig_id :: nat
  dir :: kmer_dir_t
  start_kmer_idx :: nat
  end_kmer_idx :: nat

text \<open>
  What the writer takes from the rest of the program: the length \<open>k\<close> of the k-mers, the
  minimal perfect hash \<^verbatim>\<open>Vertices.bucket_id\<close>, the two predicates of the automaton
  (section 4.A) and the threshold of the output buffers.
\<close>

record Env =
  kmer_len :: nat
  bucket_id :: "kmer_t \<Rightarrow> nat"
  is_unipath_start :: "nat \<Rightarrow> kmer_dir_t \<Rightarrow> nat \<Rightarrow> kmer_dir_t \<Rightarrow> bool"
  is_unipath_end :: "nat \<Rightarrow> kmer_dir_t \<Rightarrow> nat \<Rightarrow> kmer_dir_t \<Rightarrow> bool"
  MAX_BUFF_SIZE :: nat

text \<open>
  The members of \<^verbatim>\<open>CdBG\<close> the writer reads and writes, and the files it touches. The
  vectors indexed by a thread number are functions on thread numbers; only numbers below
  \<^verbatim>\<open>thread_count\<close> are ever used. \<open>path_output t\<close> and \<open>overlap_output t\<close> are the
  temporary files of thread \<open>t\<close>: \<open>None\<close> when the file does not exist (a stream on it
  fails), otherwise its content. \<open>gfa_file\<close> is the content of the output file.
  \<open>unitig_log\<close> is not a member of the class: it records, for the statements, the calls
  of \<^verbatim>\<open>output_unitig_gfa\<close> as (thread, index of the first k-mer, index of the last).
\<close>

record CdBG =
  Vertices :: "nat \<Rightarrow> State"
  output_buffer :: "nat \<Rightarrow> string"
  buffer_size :: "nat \<Rightarrow> nat"
  first_unitig :: "nat \<Rightarrow> Oriented_Unitig option"
  second_unitig :: "nat \<Rightarrow> Oriented_Unitig option"
  last_unitig :: "nat \<Rightarrow> Oriented_Unitig option"
  path_output :: "nat \<Rightarrow> string option"
  overlap_output :: "nat \<Rightarrow> string option"
  seq_count :: nat
  gfa_file :: string
  unitig_log :: "(nat \<times> nat \<times> nat) list"


section \<open>Text output\<close>

abbreviation TAB :: char where "TAB \<equiv> CHR 0x09"
abbreviation NEWLINE :: char where "NEWLINE \<equiv> CHR 0x0A"

text \<open>\<^verbatim>\<open>operator<<\<close> on an unsigned and on a signed integer: the decimal digits.\<close>

definition digit_char :: "nat \<Rightarrow> char" where
  "digit_char d = ''0123456789'' ! d"

fun string_of_nat :: "nat \<Rightarrow> string" where
  "string_of_nat n =
     (if n < 10 then [digit_char n] else string_of_nat (n div 10) @ [digit_char (n mod 10)])"

declare string_of_nat.simps [simp del]

definition string_of_int :: "int \<Rightarrow> string" where
  "string_of_int i =
     (if i < 0 then CHR ''-'' # string_of_nat (nat (- i)) else string_of_nat (nat i))"

text \<open>
  Modelled from the spec: \<^verbatim>\<open>fill_buffer\<close> and \<^verbatim>\<open>flush_buffer\<close> (section 4.E): a thread
  counts the records in its buffer and, when the count reaches the threshold, hands the
  buffer to the sink, which appends it to the output file.
\<close>

definition flush_buffer :: "nat \<Rightarrow> CdBG \<Rightarrow> CdBG" where
  "flush_buffer thread_id st =
     st\<lparr>gfa_file := gfa_file st @ output_buffer st thread_id,
        output_buffer := (output_buffer st)(thread_id := []),
        buffer_size := (buffer_size st)(thread_id := 0)\<rparr>"

definition fill_buffer :: "Env \<Rightarrow> nat \<Rightarrow> nat \<Rightarrow> CdBG \<Rightarrow> CdBG" where
  "fill_buffer env thread_id fill_amount st =
     (let st' = st\<lparr>buffer_size := (buffer_size st)(thread_id := buffer_size st thread_id + fill_amount)\<rparr>
      in if MAX_BUFF_SIZE env \<le> buffer_size st' thread_id then flush_buffer thread_id st' else st')"

text \<open>Modelled from the spec: \<^verbatim>\<open>complement\<close> (section 4.G): any other symbol is an error.\<close>

definition complement :: "char \<Rightarrow> error + char" where
  "complement nucleotide =
     (if nucleotide = CHR ''A'' then Inr (CHR ''T'')
      else if nucleotide = CHR ''C'' then Inr (CHR ''G'')
      else if nucleotide = CHR ''G'' then Inr (CHR ''C'')
      else if nucleotide = CHR ''T'' then Inr (CHR ''A'')
      else Inl InvalidNucleotide)"


section \<open>Segments, links and path entries\<close>

text \<open>
  \<^verbatim>\<open>write_gfa_segment\<close>, lines 353 to 388. The loop of the forward spelling (lines 363,
  364) is \<open>write_fwd\<close>, from \<open>idx\<close> up to \<open>last_idx = end_kmer_idx + k - 1\<close>; the loop
  of the backward spelling (lines 368 to 373) is \<open>write_bwd\<close>, from \<open>idx\<close> down to
  the index of the first k-mer.
\<close>

function write_fwd :: "string \<Rightarrow> nat \<Rightarrow> nat \<Rightarrow> string \<Rightarrow> error + string" where
  "write_fwd seq i last_idx buffer =
     (if i \<le> last_idx then
        (if i < length seq then write_fwd seq (i + 1) last_idx (buffer @ [seq ! i])
         else Inl OutOfBounds)
      else Inr buffer)"
  by pat_completeness auto
termination
  by (relation "measure (\<lambda>(seq, i, last_idx, buffer). length seq - i)") auto

function write_bwd :: "string \<Rightarrow> nat \<Rightarrow> nat \<Rightarrow> string \<Rightarrow> error + string" where
  "write_bwd seq i start_idx buffer =
     (if start_idx < i then
        (if i - 1 < length seq then
           (case complement (seq ! (i - 1)) of
              Inl e \<Rightarrow> Inl e
            | Inr c \<Rightarrow> write_bwd seq (i - 1) start_idx (buffer @ [c]))
         else Inl OutOfBounds)
      else Inr buffer)"
  by pat_completeness auto
termination
  by (relation "measure (\<lambda>(seq, i, start_idx, buffer). i)") auto

declare write_fwd.simps [simp del] write_bwd.simps [simp del]

definition write_gfa_segment ::
  "Env \<Rightarrow> nat \<Rightarrow> string \<Rightarrow> nat \<Rightarrow> nat \<Rightarrow> nat \<Rightarrow> kmer_dir_t \<Rightarrow> CdBG \<Rightarrow> error + CdBG" where
  "write_gfa_segment env thread_id seq segment_name start_idx end_idx d st =
     (let buffer = output_buffer st thread_id @ ''S'' @ [TAB] @ string_of_nat segment_name @ [TAB]
      in case (if d = FWD then write_fwd seq start_idx (end_idx + kmer_len env - 1) buffer
               else write_bwd seq (end_idx + kmer_len env) start_idx buffer) of
           Inl e \<Rightarrow> Inl e
         | Inr buffer' \<Rightarrow>
             Inr (fill_buffer env thread_id 1
                   (st\<lparr>output_buffer := (output_buffer st)(thread_id :=
                          buffer' @ [TAB] @ ''LN:i:'' @ string_of_nat (end_idx - start_idx + kmer_len env)
                                  @ [TAB] @ ''KC:i:'' @ string_of_nat (end_idx - start_idx + 1)
                                  @ [NEWLINE])\<rparr>)))"

text \<open>
  \<^verbatim>\<open>write_gfa_link\<close>, lines 391 to 415. The overlap is a \<^verbatim>\<open>uint16_t\<close>: \<open>k - 1\<close> is
  computed on \<^verbatim>\<open>int\<close> and stored modulo \<open>2 ^ 16\<close>.
\<close>

definition write_gfa_link :: "Env \<Rightarrow> nat \<Rightarrow> Oriented_Unitig \<Rightarrow> Oriented_Unitig \<Rightarrow> CdBG \<Rightarrow> CdBG" where
  "write_gfa_link env thread_id left_unitig right_unitig st =
     (let overlap = (if start_kmer_idx right_unitig = end_kmer_idx left_unitig + 1
                     then (int (kmer_len env) - 1) mod 65536 else 0)
      in fill_buffer env thread_id 1
           (st\<lparr>output_buffer := (output_buffer st)(thread_id :=
                  output_buffer st thread_id @ ''L''
                  @ [TAB] @ string_of_nat (unitig_id left_unitig)
                  @ [TAB] @ (if dir left_unitig = FWD then ''+'' else ''-'')
                  @ [TAB] @ string_of_nat (unitig_id right_unitig)
                  @ [TAB] @ (if dir right_unitig = FWD then ''+'' else ''-'')
                  @ [TAB] @ string_of_int overlap @ ''M''
                  @ [NEWLINE])\<rparr>))"

text \<open>
  \<^verbatim>\<open>append_link_to_path\<close>, lines 418 to 427. Here the overlap is the \<^verbatim>\<open>int\<close> \<open>k - 1\<close>
  itself. A write to a stream without a file is lost (the stream fails).
\<close>

definition append_to :: "string option \<Rightarrow> string \<Rightarrow> string option" where
  "append_to file text = (case file of None \<Rightarrow> None | Some content \<Rightarrow> Some (content @ text))"

definition append_link_to_path :: "Env \<Rightarrow> nat \<Rightarrow> Oriented_Unitig \<Rightarrow> Oriented_Unitig \<Rightarrow> CdBG \<Rightarrow> CdBG" where
  "append_link_to_path env thread_id left_unitig right_unitig st =
     st\<lparr>path_output := (path_output st)(thread_id :=
           append_to (path_output st thread_id)
             ('','' @ string_of_nat (unitig_id right_unitig)
               @ (if dir right_unitig = FWD then ''+'' else ''-''))),
        overlap_output := (overlap_output st)(thread_id :=
           append_to (overlap_output st thread_id)
             ('','' @ string_of_int (if start_kmer_idx right_unitig = end_kmer_idx left_unitig + 1
                                     then int (kmer_len env) - 1 else 0) @ ''M''))\<rparr>"


section \<open>Emission of a unitig\<close>

text \<open>
  Lines 324 to 329 of \<^verbatim>\<open>output_unitig_gfa\<close>: the thread looks at the state it loaded
  and, when that state is not yet outputted, tries to store the outputted state. The
  result tells whether this thread may write the segment.
\<close>

definition try_output :: "(nat \<Rightarrow> State) \<Rightarrow> Kmer_Hash_Entry_API \<Rightarrow> (nat \<Rightarrow> State) \<times> bool" where
  "try_output tbl entry =
     (if \<not> is_outputted (state entry) then update tbl (entry\<lparr>state := outputted (state entry)\<rparr>)
      else (tbl, False))"

text \<open>Lines 336 to 349, "Output a possible GFA link": the witnesses of the thread.\<close>

definition output_possible_link :: "Env \<Rightarrow> nat \<Rightarrow> Oriented_Unitig \<Rightarrow> CdBG \<Rightarrow> CdBG" where
  "output_possible_link env thread_id current_unitig st =
     (let st1 = (if first_unitig st thread_id = None
                 then st\<lparr>first_unitig := (first_unitig st)(thread_id \<mapsto> current_unitig)\<rparr>
                 else if second_unitig st thread_id = None
                 then st\<lparr>second_unitig := (second_unitig st)(thread_id \<mapsto> current_unitig)\<rparr>
                 else st);
          st2 = (case last_unitig st1 thread_id of
                   None \<Rightarrow> st1
                 | Some prev_unitig \<Rightarrow>
                     append_link_to_path env thread_id prev_unitig current_unitig
                       (write_gfa_link env thread_id prev_unitig current_unitig st1))
      in st2\<lparr>last_unitig := (last_unitig st2)(thread_id \<mapsto> current_unitig)\<rparr>)"

text \<open>\<^verbatim>\<open>output_unitig_gfa\<close>, lines 304 to 350.\<close>

definition output_unitig_gfa ::
  "Env \<Rightarrow> nat \<Rightarrow> string \<Rightarrow> Annotated_Kmer \<Rightarrow> Annotated_Kmer \<Rightarrow> CdBG \<Rightarrow> error + CdBG" where
  "output_unitig_gfa env thread_id seq start_kmer end_kmer st =
     (let min_flanking_kmer = min (canonical start_kmer) (canonical end_kmer);
          bucket_no = bucket_id env min_flanking_kmer;
          entry = hash_table_entry (Vertices st) bucket_no;
          unitig_no = bucket_no;
          unitig_dir = (if kmer start_kmer < rev_compl end_kmer then FWD else BWD);
          current_unitig = \<lparr>unitig_id = unitig_no, dir = unitig_dir,
                            start_kmer_idx = idx start_kmer, end_kmer_idx = idx end_kmer\<rparr>;
          won = snd (try_output (Vertices st) entry);
          st1 = st\<lparr>Vertices := fst (try_output (Vertices st) entry),
                   unitig_log := unitig_log st @ [(thread_id, idx start_kmer, idx end_kmer)]\<rparr>
      in case (if won
               then write_gfa_segment env thread_id seq unitig_no (idx start_kmer) (idx end_kmer)
                      unitig_dir st1
               else Inr st1) of
           Inl e \<Rightarrow> Inl e
         | Inr st2 \<Rightarrow> Inr (output_possible_link env thread_id current_unitig st2))"


section \<open>The walker of a thread\<close>

text \<open>
  Modelled from the spec: the k-mer classes. A k-mer is a string of length \<open>k\<close> over
  A, C, G, T, ordered lexicographically; its canonical form is the smaller of the k-mer
  and its reverse complement; an annotated k-mer has the direction \<open>FWD\<close> exactly when
  the k-mer is its canonical form, and the class of its vertex is loaded from the hash
  table (section 3). \<open>roll_to_next_kmer\<close> shifts the k-mer by one symbol and derives the
  rest again (section 4.C). A symbol outside the alphabet, which no k-mer of a valid run
  holds, is left as it is by the reverse complement.
\<close>

definition PLACEHOLDER_NUCLEOTIDE :: char where
  "PLACEHOLDER_NUCLEOTIDE = CHR ''N''"

definition reverse_complement :: "kmer_t \<Rightarrow> kmer_t" where
  "reverse_complement s = map (\<lambda>c. case complement c of Inl e \<Rightarrow> c | Inr c' \<Rightarrow> c') (rev s)"

definition kmer_at :: "Env \<Rightarrow> string \<Rightarrow> nat \<Rightarrow> kmer_t" where
  "kmer_at env seq i = take (kmer_len env) (drop i seq)"

definition annotate :: "Env \<Rightarrow> kmer_t \<Rightarrow> nat \<Rightarrow> (nat \<Rightarrow> State) \<Rightarrow> Annotated_Kmer" where
  "annotate env s kmer_idx tbl =
     (let rc = reverse_complement s; can = min s rc
      in \<lparr>kmer = s, rev_compl = rc, canonical = can, idx = kmer_idx,
          kdir = (if s = can then FWD else BWD),
          vertex_class = state_class (tbl (bucket_id env can))\<rparr>)"

definition roll_to_next_kmer :: "Env \<Rightarrow> char \<Rightarrow> (nat \<Rightarrow> State) \<Rightarrow> Annotated_Kmer \<Rightarrow> Annotated_Kmer" where
  "roll_to_next_kmer env next_nucl tbl a = annotate env (tl (kmer a) @ [next_nucl]) (idx a + 1) tbl"

text \<open>The default-constructed annotated k-mer of lines 231 and 232; it is never read.\<close>

definition default_Annotated_Kmer :: Annotated_Kmer where
  "default_Annotated_Kmer =
     \<lparr>kmer = [], rev_compl = [], canonical = [], idx = 0, kdir = FWD, vertex_class = 0\<rparr>"

text \<open>
  Modelled from the spec: \<^verbatim>\<open>search_valid_kmer\<close> (section 4.C): the smallest index of
  \<open>[left_end, right_end]\<close> at which a k-mer without a placeholder begins, and
  \<open>right_end + 1\<close> when there is none.
\<close>

definition valid_kmer_at :: "Env \<Rightarrow> string \<Rightarrow> nat \<Rightarrow> bool" where
  "valid_kmer_at env seq i =
     (i + kmer_len env \<le> length seq \<and> PLACEHOLDER_NUCLEOTIDE \<notin> set (kmer_at env seq i))"

function search_valid_kmer :: "Env \<Rightarrow> string \<Rightarrow> nat \<Rightarrow> nat \<Rightarrow> nat" where
  "search_valid_kmer env seq left_end right_end =
     (if left_end \<le> right_end then
        (if valid_kmer_at env seq left_end then left_end
         else search_valid_kmer env seq (left_end + 1) right_end)
      else right_end + 1)"
  by pat_completeness auto
termination
  by (relation "measure (\<lambda>(env, seq, left_end, right_end). right_end + 1 - left_end)") auto

declare search_valid_kmer.simps [simp del]

text \<open>
  The conditions of lines 206, 207, 212, 235 and 273: the k-mer at \<open>kmer_idx\<close> has no
  valid neighbour on the left, respectively on the right.
\<close>

definition no_left_neighbor :: "string \<Rightarrow> nat \<Rightarrow> bool" where
  "no_left_neighbor seq kmer_idx =
     (kmer_idx = 0 \<or> seq ! (kmer_idx - 1) = PLACEHOLDER_NUCLEOTIDE)"

definition no_right_neighbor :: "Env \<Rightarrow> string \<Rightarrow> nat \<Rightarrow> bool" where
  "no_right_neighbor env seq kmer_idx =
     (kmer_idx + kmer_len env = length seq \<or> seq ! (kmer_idx + kmer_len env) = PLACEHOLDER_NUCLEOTIDE)"

text \<open>
  The loop of lines 260 to 295, entered after \<^verbatim>\<open>kmer_idx++\<close>. \<open>walk_body\<close> is one
  pass through its body, lines 262 to 294, on the variables \<open>on_unipath\<close>,
  \<open>unipath_start_kmer\<close>, \<open>curr_kmer\<close> and \<open>next_kmer\<close> (\<open>prev_kmer\<close> is assigned
  before it is read): the pass either returns from the function (\<open>Returned\<close>, with the
  value returned) or ends with new values of the variables (\<open>Continue\<close>).
\<close>

datatype walk_result =
    Returned nat CdBG
  | Continue bool Annotated_Kmer Annotated_Kmer Annotated_Kmer CdBG

definition walk_body ::
  "Env \<Rightarrow> nat \<Rightarrow> string \<Rightarrow> nat \<Rightarrow> bool \<Rightarrow> Annotated_Kmer \<Rightarrow> Annotated_Kmer \<Rightarrow> Annotated_Kmer
     \<Rightarrow> CdBG \<Rightarrow> error + walk_result" where
  "walk_body env thread_id seq kmer_idx on_unipath unipath_start_kmer curr_kmer next_kmer st =
     (let prev_kmer' = curr_kmer;
          curr_kmer' = next_kmer;
          starts = is_unipath_start env (vertex_class curr_kmer') (kdir curr_kmer')
                     (vertex_class prev_kmer') (kdir prev_kmer');
          on_unipath' = (starts \<or> on_unipath);
          unipath_start_kmer' = (if starts then curr_kmer' else unipath_start_kmer)
      in if length seq < kmer_idx + kmer_len env then Inl OutOfBounds
         else if no_right_neighbor env seq kmer_idx then
           (if on_unipath' then
              (case output_unitig_gfa env thread_id seq unipath_start_kmer' curr_kmer' st of
                 Inl e \<Rightarrow> Inl e
               | Inr st' \<Rightarrow> Inr (Returned (kmer_idx + kmer_len env) st'))
            else Inr (Returned (kmer_idx + kmer_len env) st))
         else
           (let next_kmer' = roll_to_next_kmer env (seq ! (kmer_idx + kmer_len env))
                               (Vertices st) next_kmer
            in if on_unipath' \<and> is_unipath_end env (vertex_class curr_kmer') (kdir curr_kmer')
                                   (vertex_class next_kmer') (kdir next_kmer') then
                 (case output_unitig_gfa env thread_id seq unipath_start_kmer' curr_kmer' st of
                    Inl e \<Rightarrow> Inl e
                  | Inr st' \<Rightarrow> Inr (Continue False unipath_start_kmer' curr_kmer' next_kmer' st'))
               else Inr (Continue on_unipath' unipath_start_kmer' curr_kmer' next_kmer' st)))"

text \<open>
  The loop itself: it goes on while \<open>on_unipath \<or> kmer_idx \<le> right_end\<close>; when the
  condition fails, control reaches line 300. The result is the value the function
  returns and the state it leaves.
\<close>

function walk_rest ::
  "Env \<Rightarrow> nat \<Rightarrow> string \<Rightarrow> nat \<Rightarrow> nat \<Rightarrow> bool \<Rightarrow> Annotated_Kmer \<Rightarrow> Annotated_Kmer \<Rightarrow> Annotated_Kmer
     \<Rightarrow> CdBG \<Rightarrow> error + (nat \<times> CdBG)" where
  "walk_rest env thread_id seq right_end kmer_idx on_unipath unipath_start_kmer curr_kmer next_kmer st =
     (if on_unipath \<or> kmer_idx \<le> right_end then
        (case walk_body env thread_id seq kmer_idx on_unipath unipath_start_kmer curr_kmer
                next_kmer st of
           Inl e \<Rightarrow> Inl e
         | Inr (Returned r st') \<Rightarrow> Inr (r, st')
         | Inr (Continue on_unipath' unipath_start_kmer' curr_kmer' next_kmer' st') \<Rightarrow>
             walk_rest env thread_id seq right_end (kmer_idx + 1) on_unipath'
               unipath_start_kmer' curr_kmer' next_kmer' st')
      else Inr (kmer_idx + kmer_len env, st))"
  by pat_completeness auto
termination
  by (relation "measure (\<lambda>(env, thread_id, seq, right_end, kmer_idx, rest). length seq - kmer_idx)")
     (auto simp: walk_body_def no_right_neighbor_def Let_def split: if_splits sum.splits)

declare walk_rest.simps [simp del]

text \<open>
  \<^verbatim>\<open>output_maximal_unitigs_gfa(thread_id, seq, seq_len, right_end, start_idx, output)\<close>,
  lines 196 to 301: one maximal run without placeholder, from the k-mer at \<open>start_idx\<close>.
  The k-mer at \<open>start_idx\<close> must lie in the sequence (the assertion commented out at
  line 200). \<open>walk_first\<close> is the part before the loop, lines 198 to 256, on the first
  k-mer of the run: it returns from the function (the isolated k-mer falls through to
  line 300) or sets the variables the loop starts with.
\<close>

definition walk_first :: "Env \<Rightarrow> nat \<Rightarrow> string \<Rightarrow> nat \<Rightarrow> CdBG \<Rightarrow> error + walk_result" where
  "walk_first env thread_id seq kmer_idx st =
     (let curr_kmer = annotate env (kmer_at env seq kmer_idx) kmer_idx (Vertices st)
      in if length seq < kmer_idx + kmer_len env then Inl OutOfBounds
         else if no_left_neighbor seq kmer_idx \<and> no_right_neighbor env seq kmer_idx then
           (case output_unitig_gfa env thread_id seq curr_kmer curr_kmer st of
              Inl e \<Rightarrow> Inl e
            | Inr st' \<Rightarrow> Inr (Returned (kmer_idx + kmer_len env) st'))
         else if no_right_neighbor env seq kmer_idx then
           (let prev_kmer = annotate env (kmer_at env seq (kmer_idx - 1)) kmer_idx (Vertices st)
            in if is_unipath_start env (vertex_class curr_kmer) (kdir curr_kmer)
                    (vertex_class prev_kmer) (kdir prev_kmer)
               then (case output_unitig_gfa env thread_id seq curr_kmer curr_kmer st of
                       Inl e \<Rightarrow> Inl e
                     | Inr st' \<Rightarrow> Inr (Returned (kmer_idx + kmer_len env) st'))
               else Inr (Returned (kmer_idx + kmer_len env) st))
         else
           (let next_kmer = roll_to_next_kmer env (seq ! (kmer_idx + kmer_len env)) (Vertices st) curr_kmer;
                prev_kmer = annotate env (kmer_at env seq (kmer_idx - 1)) kmer_idx (Vertices st);
                on_unipath = (no_left_neighbor seq kmer_idx
                              \<or> is_unipath_start env (vertex_class curr_kmer) (kdir curr_kmer)
                                   (vertex_class prev_kmer) (kdir prev_kmer));
                unipath_start_kmer = (if on_unipath then curr_kmer else default_Annotated_Kmer)
            in if on_unipath \<and> is_unipath_end env (vertex_class curr_kmer) (kdir curr_kmer)
                                 (vertex_class next_kmer) (kdir next_kmer) then
                 (case output_unitig_gfa env thread_id seq unipath_start_kmer curr_kmer st of
                    Inl e \<Rightarrow> Inl e
                  | Inr st' \<Rightarrow> Inr (Continue False unipath_start_kmer curr_kmer next_kmer st'))
               else Inr (Continue on_unipath unipath_start_kmer curr_kmer next_kmer st)))"

definition output_maximal_unitigs_gfa_walk ::
  "Env \<Rightarrow> nat \<Rightarrow> string \<Rightarrow> nat \<Rightarrow> nat \<Rightarrow> CdBG \<Rightarrow> error + (nat \<times> CdBG)" where
  "output_maximal_unitigs_gfa_walk env thread_id seq right_end start_idx st =
     (case walk_first env thread_id seq start_idx st of
        Inl e \<Rightarrow> Inl e
      | Inr (Returned r st') \<Rightarrow> Inr (r, st')
      | Inr (Continue on_unipath unipath_start_kmer curr_kmer next_kmer st') \<Rightarrow>
          walk_rest env thread_id seq right_end (start_idx + 1) on_unipath
            unipath_start_kmer curr_kmer next_kmer st')"

text \<open>
  \<^verbatim>\<open>output_gfa_off_substring\<close>, lines 179 to 193; the argument \<open>kmer_idx\<close> is the
  variable of the loop, \<open>left_end\<close> at the call. The loop goes round again only with
  the index the walker returned; were that index not beyond the one the walker started
  from (which needs \<open>k = 0\<close>), the loop would search and walk the same run for ever,
  and the result is \<open>Diverges\<close>.
\<close>

function output_gfa_off_substring ::
  "Env \<Rightarrow> nat \<Rightarrow> string \<Rightarrow> nat \<Rightarrow> nat \<Rightarrow> CdBG \<Rightarrow> error + CdBG" where
  "output_gfa_off_substring env thread_id seq kmer_idx right_end st =
     (if kmer_idx \<le> right_end then
        (let found = search_valid_kmer env seq kmer_idx right_end
         in if right_end < found then Inr st
            else (case output_maximal_unitigs_gfa_walk env thread_id seq right_end found st of
                    Inl e \<Rightarrow> Inl e
                  | Inr (next_idx, st') \<Rightarrow>
                      if next_idx \<le> kmer_idx then Inl Diverges
                      else output_gfa_off_substring env thread_id seq next_idx right_end st'))
      else Inr st)"
  by pat_completeness auto
termination
  by (relation "measure (\<lambda>(env, thread_id, seq, kmer_idx, right_end, st). right_end + 1 - kmer_idx)")
     auto

declare output_gfa_off_substring.simps [simp del]


section \<open>Sharding of a sequence over the worker threads\<close>

text \<open>
  \<^verbatim>\<open>CdBG::output_maximal_unitigs_gfa(gfa_file_name, thread_count)\<close>, lines 90 to 104 of
  \<^verbatim>\<open>CdBG_GFA_Writer.cpp\<close>. The loop that creates the worker threads is the recursion
  \<open>spawn_tasks\<close>; its result lists, in creation order, the arguments
  \<open>(task_id, left_end, right_end)\<close> each worker is started with. The values are
  \<^verbatim>\<open>size_t\<close> and \<^verbatim>\<open>uint16_t\<close> in the source; they are natural numbers here, and none
  of them exceeds \<open>seq_len\<close> (respectively \<open>thread_count\<close>) when \<open>k \<le> seq_len\<close>, so that
  no operation wraps around.
\<close>

function spawn_tasks :: "nat \<Rightarrow> nat \<Rightarrow> nat \<Rightarrow> nat \<Rightarrow> nat \<Rightarrow> nat \<Rightarrow> (nat \<times> nat \<times> nat) list" where
  "spawn_tasks thread_count seq_len k task_size task_id left_end =
     (if task_id < thread_count then
        (let right_end = (if task_id = thread_count - 1 then seq_len - k
                          else left_end + task_size - 1)
         in (task_id, left_end, right_end)
            # spawn_tasks thread_count seq_len k task_size (task_id + 1) (left_end + task_size))
      else [])"
  by pat_completeness auto
termination
  by (relation "measure (\<lambda>(T, L, k, s, t, l). T - t)") auto

declare spawn_tasks.simps [simp del]

text \<open>The tasks of one sequence: \<open>task_size\<close> is the integer quotient of line 90.\<close>

definition task_size_of :: "nat \<Rightarrow> nat \<Rightarrow> nat \<Rightarrow> nat" where
  "task_size_of thread_count seq_len k = (seq_len - k + 1) div thread_count"

definition worker_tasks :: "nat \<Rightarrow> nat \<Rightarrow> nat \<Rightarrow> (nat \<times> nat \<times> nat) list" where
  "worker_tasks thread_count seq_len k =
     spawn_tasks thread_count seq_len k (task_size_of thread_count seq_len k) 0 0"

text \<open>The number of k-mer indices of a range, both ends included.\<close>

definition range_size :: "nat \<times> nat \<times> nat \<Rightarrow> nat" where
  "range_size task = (case task of (task_id, left_end, right_end) \<Rightarrow> right_end + 1 - left_end)"


section \<open>The stitcher\<close>

text \<open>
  \<^verbatim>\<open>write_inter_thread_links\<close>, lines 430 to 454: the loop over the thread numbers, with
  its variables \<open>left_unitig\<close> and \<open>left_t_id\<close> (not initialised at line 433, and not
  read before line 439 has set it; the loop starts with 0).
\<close>

function inter_thread_links_from ::
  "Env \<Rightarrow> nat \<Rightarrow> nat \<Rightarrow> Oriented_Unitig option \<Rightarrow> nat \<Rightarrow> CdBG \<Rightarrow> CdBG" where
  "inter_thread_links_from env thread_count t_id left_unitig left_t_id st =
     (if t_id < thread_count then
        (case left_unitig of
           None \<Rightarrow> inter_thread_links_from env thread_count (t_id + 1) (last_unitig st t_id) t_id st
         | Some left \<Rightarrow>
             (case first_unitig st t_id of
                Some right_unitig \<Rightarrow>
                  inter_thread_links_from env thread_count (t_id + 1) (last_unitig st t_id) t_id
                    (append_link_to_path env left_t_id left right_unitig
                       (write_gfa_link env t_id left right_unitig st))
              | None \<Rightarrow>
                  inter_thread_links_from env thread_count (t_id + 1) left_unitig left_t_id st))
      else st)"
  by pat_completeness auto
termination
  by (relation "measure (\<lambda>(env, thread_count, t_id, rest). thread_count - t_id)") auto

declare inter_thread_links_from.simps [simp del]

definition write_inter_thread_links :: "Env \<Rightarrow> nat \<Rightarrow> CdBG \<Rightarrow> CdBG" where
  "write_inter_thread_links env thread_count st =
     inter_thread_links_from env thread_count 0 None 0 st"

text \<open>
  \<^verbatim>\<open>search_first_link\<close>, lines 457 to 483: the loop from \<open>t_id\<close> on, with the value of
  \<open>left_unitig\<close> so far; the result is the pair \<open>(left_unitig, right_unitig)\<close>.
\<close>

function search_first_link_from ::
  "nat \<Rightarrow> nat \<Rightarrow> Oriented_Unitig option \<Rightarrow> CdBG \<Rightarrow> Oriented_Unitig option \<times> Oriented_Unitig option" where
  "search_first_link_from thread_count t_id left_unitig st =
     (if t_id < thread_count then
        (case first_unitig st t_id of
           Some f \<Rightarrow>
             (case left_unitig of
                None \<Rightarrow>
                  (case second_unitig st t_id of
                     Some s \<Rightarrow> (Some f, Some s)
                   | None \<Rightarrow> search_first_link_from thread_count (t_id + 1) (Some f) st)
              | Some l \<Rightarrow> (left_unitig, Some f))
         | None \<Rightarrow>
             (case second_unitig st t_id of
                Some s \<Rightarrow> (left_unitig, Some s)
              | None \<Rightarrow> search_first_link_from thread_count (t_id + 1) left_unitig st))
      else (left_unitig, None))"
  by pat_completeness auto
termination
  by (relation "measure (\<lambda>(thread_count, t_id, rest). thread_count - t_id)") auto

declare search_first_link_from.simps [simp del]

definition search_first_link ::
  "nat \<Rightarrow> CdBG \<Rightarrow> Oriented_Unitig option \<times> Oriented_Unitig option" where
  "search_first_link thread_count st = search_first_link_from thread_count 0 None st"

text \<open>
  \<^verbatim>\<open>write_gfa_path\<close>, lines 486 to 590. The function aborts when a stream of a
  temporary file has failed (line 493) or a temporary file cannot be opened (lines 535,
  567); both are the absence of the file here. \<open>spool_contents\<close> is the copy of the files
  of the threads, in ascending order (lines 530 to 546 and 562 to 578).
\<close>

definition spool_contents :: "(nat \<Rightarrow> string option) \<Rightarrow> nat \<Rightarrow> string" where
  "spool_contents files thread_count =
     concat (map (\<lambda>t. case files t of None \<Rightarrow> [] | Some content \<Rightarrow> content) [0..<thread_count])"

definition spools_usable :: "nat \<Rightarrow> CdBG \<Rightarrow> bool" where
  "spools_usable thread_count st =
     list_all (\<lambda>t. path_output st t \<noteq> None \<and> overlap_output st t \<noteq> None) [0..<thread_count]"

definition write_gfa_path :: "Env \<Rightarrow> nat \<Rightarrow> CdBG \<Rightarrow> error + CdBG" where
  "write_gfa_path env thread_count st =
     (if \<not> spools_usable thread_count st then Inl SpoolIOError
      else case search_first_link thread_count st of
             (None, right) \<Rightarrow> Inr st
           | (Some left_unitig, right) \<Rightarrow>
               Inr (st\<lparr>gfa_file := gfa_file st @ ''P''
                      @ [TAB] @ ''P'' @ string_of_nat (seq_count st)
                      @ [TAB] @ string_of_nat (unitig_id left_unitig)
                      @ (if dir left_unitig = FWD then ''+'' else ''-'')
                      @ spool_contents (path_output st) thread_count
                      @ [TAB]
                      @ (case right of
                           None \<Rightarrow> ''*''
                         | Some right_unitig \<Rightarrow>
                             string_of_int
                               (if start_kmer_idx right_unitig = end_kmer_idx left_unitig + 1
                                then (int (kmer_len env) - 1) mod 65536 else 0)
                             @ ''M'' @ spool_contents (overlap_output st) thread_count)
                      @ [NEWLINE]\<rparr>))"

text \<open>
  \<^verbatim>\<open>reset_path_streams\<close>, lines 160 to 176: each temporary file is opened for writing,
  which creates it or empties it. \<^verbatim>\<open>remove_temp_files\<close>, lines 593 to 605: for each
  thread the path file is removed and then, only when that succeeded (the \<^verbatim>\<open>||\<close> of line
  600), the overlap file; removing a file that does not exist fails, which is reported
  and nothing more.
\<close>

definition reset_path_streams :: "nat \<Rightarrow> CdBG \<Rightarrow> CdBG" where
  "reset_path_streams thread_count st =
     st\<lparr>path_output := (\<lambda>t. if t < thread_count then Some [] else path_output st t),
        overlap_output := (\<lambda>t. if t < thread_count then Some [] else overlap_output st t)\<rparr>"

definition remove_temp_files_of :: "nat \<Rightarrow> CdBG \<Rightarrow> CdBG" where
  "remove_temp_files_of t_id st =
     (if path_output st t_id = None then st
      else st\<lparr>path_output := (path_output st)(t_id := None),
              overlap_output := (overlap_output st)(t_id := None)\<rparr>)"

definition remove_temp_files :: "nat \<Rightarrow> CdBG \<Rightarrow> CdBG" where
  "remove_temp_files thread_count st = fold remove_temp_files_of [0..<thread_count] st"

text \<open>Modelled from the spec: \<^verbatim>\<open>flush_buffers\<close>: every thread's buffer goes to the sink.\<close>

definition flush_buffers :: "nat \<Rightarrow> CdBG \<Rightarrow> CdBG" where
  "flush_buffers thread_count st = fold flush_buffer [0..<thread_count] st"


section \<open>The driver\<close>

text \<open>
  The workers of one sequence. The program runs them as concurrent threads and joins them
  (lines 99 to 113); \<open>run_tasks\<close> runs them to the end one after the other, in the order
  of their creation, which is one of the schedules of the program. What the threads do
  to one slot of the hash table under any schedule is the subject of the section on
  concurrent emission.
\<close>

fun run_tasks :: "Env \<Rightarrow> string \<Rightarrow> (nat \<times> nat \<times> nat) list \<Rightarrow> CdBG \<Rightarrow> error + CdBG" where
  "run_tasks env seq [] st = Inr st"
| "run_tasks env seq ((task_id, left_end, right_end) # tasks) st =
     (case output_gfa_off_substring env task_id seq left_end right_end st of
        Inl e \<Rightarrow> Inl e
      | Inr st' \<Rightarrow> run_tasks env seq tasks st')"

text \<open>
  The body of the loop over the sequences, lines 60 to 132, for one sequence \<open>seq\<close>.
\<close>

definition reset_unitigs :: "CdBG \<Rightarrow> CdBG" where
  "reset_unitigs st =
     st\<lparr>first_unitig := (\<lambda>t. None), second_unitig := (\<lambda>t. None), last_unitig := (\<lambda>t. None)\<rparr>"

text \<open>Lines 90 to 121: the workers of the sequence, and the links between their shards.\<close>

definition write_segments_and_links :: "Env \<Rightarrow> nat \<Rightarrow> string \<Rightarrow> CdBG \<Rightarrow> error + CdBG" where
  "write_segments_and_links env thread_count seq st =
     (if thread_count = 0 then Inl DivisionByZero
      else if task_size_of thread_count (length seq) (kmer_len env) = 0
      then output_gfa_off_substring env 0 seq 0 (length seq - kmer_len env) st
      else (case run_tasks env seq (worker_tasks thread_count (length seq) (kmer_len env)) st of
              Inl e \<Rightarrow> Inl e
            | Inr st' \<Rightarrow> Inr (write_inter_thread_links env thread_count st')))"

definition process_sequence :: "Env \<Rightarrow> nat \<Rightarrow> string \<Rightarrow> CdBG \<Rightarrow> error + CdBG" where
  "process_sequence env thread_count seq st0 =
     (let st = st0\<lparr>seq_count := seq_count st0 + 1\<rparr>
      in if length seq < kmer_len env then Inr st
         else (case write_segments_and_links env thread_count seq
                      (reset_path_streams thread_count (reset_unitigs st)) of
                 Inl e \<Rightarrow> Inl e
               | Inr st' \<Rightarrow> write_gfa_path env thread_count st'))"

fun process_sequences :: "Env \<Rightarrow> nat \<Rightarrow> string list \<Rightarrow> CdBG \<Rightarrow> error + CdBG" where
  "process_sequences env thread_count [] st = Inr st"
| "process_sequences env thread_count (seq # seqs) st =
     (case process_sequence env thread_count seq st of
        Inl e \<Rightarrow> Inl e
      | Inr st' \<Rightarrow> process_sequences env thread_count seqs st')"

text \<open>
  \<^verbatim>\<open>output_maximal_unitigs_gfa(gfa_file_name, thread_count)\<close>, lines 15 to 157, on the
  sequences \<open>seqs\<close> the parser yields: the output file is emptied and gets the header
  (section 6), the sequences are processed, the buffers are flushed and the temporary
  files are removed.
\<close>

definition GFA_HEADER :: string where
  "GFA_HEADER = ''H'' @ [TAB] @ ''VN:Z:1.0''"

definition output_maximal_unitigs_gfa :: "Env \<Rightarrow> nat \<Rightarrow> string list \<Rightarrow> CdBG \<Rightarrow> error + CdBG" where
  "output_maximal_unitigs_gfa env thread_count seqs st0 =
     (case process_sequences env thread_count seqs
             (st0\<lparr>gfa_file := GFA_HEADER @ [NEWLINE], seq_count := 0\<rparr>) of
        Inl e \<Rightarrow> Inl e
      | Inr st \<Rightarrow> Inr (remove_temp_files thread_count (flush_buffers thread_count st)))"


section \<open>Concurrent emission on one slot of the hash table\<close>

text \<open>
  Between the load of line 313 and the update of line 329 of one thread, other threads
  may load and update the same slot. An event is one of these two steps of a thread in
  \<^verbatim>\<open>output_unitig_gfa\<close>: \<open>Load t b\<close>, thread \<open>t\<close> loads the slot \<open>b\<close> of the unitig
  it is about to emit; \<open>Update t\<close>, thread \<open>t\<close> runs lines 324 to 329 on the handle it
  holds. A schedule is any list of events, an interleaving of the threads. The
  configuration is the table, the handle each thread holds, and the list of the
  segments written so far, as (thread, name of the segment). An event that a thread
  cannot perform (a load while it holds a handle, an update without one) changes nothing.
\<close>

datatype event = Load nat nat | Update nat

record Config =
  table :: "nat \<Rightarrow> State"
  handle :: "nat \<Rightarrow> Kmer_Hash_Entry_API option"
  segments :: "(nat \<times> nat) list"

fun step :: "event \<Rightarrow> Config \<Rightarrow> Config" where
  "step (Load t b) c =
     (case handle c t of
        None \<Rightarrow> c\<lparr>handle := (handle c)(t \<mapsto> hash_table_entry (table c) b)\<rparr>
      | Some entry \<Rightarrow> c)"
| "step (Update t) c =
     (case handle c t of
        None \<Rightarrow> c
      | Some entry \<Rightarrow>
          c\<lparr>table := fst (try_output (table c) entry),
            handle := (handle c)(t := None),
            segments := (if snd (try_output (table c) entry)
                         then segments c @ [(t, bucket entry)] else segments c)\<rparr>)"

definition run_schedule :: "event list \<Rightarrow> Config \<Rightarrow> Config" where
  "run_schedule events c = fold step events c"

definition initial_config :: "(nat \<Rightarrow> State) \<Rightarrow> Config" where
  "initial_config tbl = \<lparr>table = tbl, handle = (\<lambda>t. None), segments = []\<rparr>"


section \<open>Notions of the statements\<close>

text \<open>
  What a thread has written so far, in the order it wrote it when no other thread writes:
  the output file followed by the thread's buffer. A flush moves text from the second
  part to the first.
\<close>

definition thread_stream :: "CdBG \<Rightarrow> nat \<Rightarrow> string" where
  "thread_stream st t = gfa_file st @ output_buffer st t"

text \<open>
  The link line and the entries of the temporary files as section 4.G and 4.F of the
  specification word them: the sign of a direction, and the overlap of two oriented
  unitigs, \<open>k - 1\<close> when the right one begins at the index after the end of the left one
  and 0 otherwise.
\<close>

definition gfa_sign :: "kmer_dir_t \<Rightarrow> string" where
  "gfa_sign d = (case d of FWD \<Rightarrow> ''+'' | BWD \<Rightarrow> ''-'')"

definition overlap_length :: "nat \<Rightarrow> Oriented_Unitig \<Rightarrow> Oriented_Unitig \<Rightarrow> nat" where
  "overlap_length k U V = (if start_kmer_idx V = end_kmer_idx U + 1 then k - 1 else 0)"

definition link_line :: "nat \<Rightarrow> Oriented_Unitig \<Rightarrow> Oriented_Unitig \<Rightarrow> string" where
  "link_line k U V =
     ''L'' @ [TAB] @ string_of_nat (unitig_id U) @ [TAB] @ gfa_sign (dir U)
       @ [TAB] @ string_of_nat (unitig_id V) @ [TAB] @ gfa_sign (dir V)
       @ [TAB] @ string_of_nat (overlap_length k U V) @ ''M'' @ [NEWLINE]"

text \<open>
  The spelling of a segment as section 4.G words it: the symbols of the sequence from the
  first symbol of the first k-mer to the last symbol of the last k-mer, or the reverse
  complement of that range.
\<close>

definition nucleotide :: "char \<Rightarrow> bool" where
  "nucleotide c = (c = CHR ''A'' \<or> c = CHR ''C'' \<or> c = CHR ''G'' \<or> c = CHR ''T'')"

definition segment_spelling :: "nat \<Rightarrow> string \<Rightarrow> nat \<Rightarrow> nat \<Rightarrow> kmer_dir_t \<Rightarrow> string" where
  "segment_spelling k seq start_idx end_idx d =
     (case d of
        FWD \<Rightarrow> take (end_idx + k - start_idx) (drop start_idx seq)
      | BWD \<Rightarrow> reverse_complement (take (end_idx + k - start_idx) (drop start_idx seq)))"

text \<open>
  The implications the stitcher relies on, for the witnesses of one thread; and a list of
  calls of \<^verbatim>\<open>output_unitig_gfa\<close>, each with its thread, run one after the other.
\<close>

definition witnesses_consistent :: "nat \<Rightarrow> CdBG \<Rightarrow> bool" where
  "witnesses_consistent t st =
     ((second_unitig st t \<noteq> None \<longrightarrow> first_unitig st t \<noteq> None)
      \<and> (first_unitig st t \<noteq> None \<longrightarrow> last_unitig st t \<noteq> None))"

fun emit_all :: "Env \<Rightarrow> (nat \<times> string \<times> Annotated_Kmer \<times> Annotated_Kmer) list \<Rightarrow> CdBG \<Rightarrow> error + CdBG" where
  "emit_all env [] st = Inr st"
| "emit_all env ((thread_id, seq, start_kmer, end_kmer) # calls) st =
     (case output_unitig_gfa env thread_id seq start_kmer end_kmer st of
        Inl e \<Rightarrow> Inl e
      | Inr st' \<Rightarrow> emit_all env calls st')"

text \<open>A property of the state that every call of \<^verbatim>\<open>output_unitig_gfa\<close> keeps.\<close>

definition emission_invariant :: "(CdBG \<Rightarrow> bool) \<Rightarrow> bool" where
  "emission_invariant P =
     (\<forall>env t seq s e st st'. P st \<longrightarrow> output_unitig_gfa env t seq s e st = Inr st' \<longrightarrow> P st')"

text \<open>
  The temporary files of the threads below \<open>T\<close> exist and hold no line break.
\<close>

definition spools_clean :: "nat \<Rightarrow> CdBG \<Rightarrow> bool" where
  "spools_clean T st =
     (\<forall>t<T. (\<exists>p. path_output st t = Some p \<and> NEWLINE \<notin> set p)
           \<and> (\<exists>q. overlap_output st t = Some q \<and> NEWLINE \<notin> set q))"

text \<open>
  The configurations a schedule can reach from the table \<open>tbl\<close>: a slot holds the
  outputted state exactly when its segment has been written, which has happened at most
  once, and no handle has been modified before its update.
\<close>

definition schedule_invariant :: "(nat \<Rightarrow> State) \<Rightarrow> Config \<Rightarrow> bool" where
  "schedule_invariant tbl c =
     (distinct (map snd (segments c))
      \<and> (\<forall>b. table c b = (if b \<in> snd ` set (segments c) then outputted (tbl b) else tbl b))
      \<and> (\<forall>b \<in> snd ` set (segments c). \<not> is_outputted (tbl b))
      \<and> (\<forall>t entry. handle c t = Some entry \<longrightarrow> state entry = state_read entry))"


text \<open>The temporary files of the threads below \<open>T\<close> exist.\<close>

definition spools_exist :: "nat \<Rightarrow> CdBG \<Rightarrow> bool" where
  "spools_exist T st = (\<forall>t<T. path_output st t \<noteq> None \<and> overlap_output st t \<noteq> None)"

text \<open>
  The walk of a run, told by positions. \<open>kmer_of\<close> is the annotated k-mer at an index of
  the sequence, with the classes of the table \<open>tbl\<close>. \<open>starts_at\<close> and \<open>ends_at\<close> are the
  two predicates of the automaton on the k-mer at an index and its neighbour on the left,
  respectively on the right. A unitig starts at a k-mer that has no valid neighbour on
  the left or where \<open>starts_at\<close> holds, and ends at a k-mer that has no valid neighbour on
  the right or where \<open>ends_at\<close> holds.
\<close>

definition kmer_of :: "Env \<Rightarrow> (nat \<Rightarrow> State) \<Rightarrow> string \<Rightarrow> nat \<Rightarrow> Annotated_Kmer" where
  "kmer_of env tbl seq j = annotate env (kmer_at env seq j) j tbl"

definition starts_at :: "Env \<Rightarrow> (nat \<Rightarrow> State) \<Rightarrow> string \<Rightarrow> nat \<Rightarrow> bool" where
  "starts_at env tbl seq j =
     is_unipath_start env (vertex_class (kmer_of env tbl seq j)) (kdir (kmer_of env tbl seq j))
       (vertex_class (kmer_of env tbl seq (j - 1))) (kdir (kmer_of env tbl seq (j - 1)))"

definition ends_at :: "Env \<Rightarrow> (nat \<Rightarrow> State) \<Rightarrow> string \<Rightarrow> nat \<Rightarrow> bool" where
  "ends_at env tbl seq j =
     is_unipath_end env (vertex_class (kmer_of env tbl seq j)) (kdir (kmer_of env tbl seq j))
       (vertex_class (kmer_of env tbl seq (j + 1))) (kdir (kmer_of env tbl seq (j + 1)))"

definition unitig_start :: "Env \<Rightarrow> (nat \<Rightarrow> State) \<Rightarrow> string \<Rightarrow> nat \<Rightarrow> bool" where
  "unitig_start env tbl seq j = (no_left_neighbor seq j \<or> starts_at env tbl seq j)"

definition unitig_end :: "Env \<Rightarrow> (nat \<Rightarrow> State) \<Rightarrow> string \<Rightarrow> nat \<Rightarrow> bool" where
  "unitig_end env tbl seq j = (no_right_neighbor env seq j \<or> ends_at env tbl seq j)"

text \<open>
  What the statements about the walker ask of the two predicates, which are parameters:
  where a unitig starts at a k-mer by \<^verbatim>\<open>is_unipath_start\<close>, the k-mer before it ends one
  by \<^verbatim>\<open>is_unipath_end\<close> (section 4.A defines the two symmetrically). And what they ask
  of the sequence: each symbol is one of the four nucleotides or the placeholder.
\<close>

definition predicates_agree :: "Env \<Rightarrow> bool" where
  "predicates_agree env =
     (\<forall>c d n nd. is_unipath_start env n nd c d \<longrightarrow> is_unipath_end env c d n nd)"

definition symbols_known :: "string \<Rightarrow> bool" where
  "symbols_known seq = (\<forall>c \<in> set seq. nucleotide c \<or> c = PLACEHOLDER_NUCLEOTIDE)"

text \<open>
  Two tables give every vertex the same class. The variables of the loop of the walker
  are as the passes before index \<open>i\<close> leave them, for a table of classes \<open>tbl\<close>: the two
  k-mers are those at \<open>i - 1\<close> and \<open>i\<close>, the k-mer at \<open>i\<close> is valid, and a pending unitig
  starts before \<open>i\<close>, with no placeholder and no end of a unitig from its start on. And
  what the loop entered at \<open>i\<close> has done when it returns \<open>r\<close>, having emitted the unitigs
  \<open>new\<close>, as (index of the first k-mer, index of the last).
\<close>

definition same_classes :: "(nat \<Rightarrow> State) \<Rightarrow> (nat \<Rightarrow> State) \<Rightarrow> bool" where
  "same_classes tbl tbl' = (\<forall>b. state_class (tbl' b) = state_class (tbl b))"

definition loop_ready ::
  "Env \<Rightarrow> (nat \<Rightarrow> State) \<Rightarrow> string \<Rightarrow> nat \<Rightarrow> bool \<Rightarrow> Annotated_Kmer \<Rightarrow> Annotated_Kmer
     \<Rightarrow> Annotated_Kmer \<Rightarrow> CdBG \<Rightarrow> bool" where
  "loop_ready env tbl seq i on us cur nxt st =
     (0 < i \<and> i + kmer_len env \<le> length seq
      \<and> cur = kmer_of env tbl seq (i - 1) \<and> nxt = kmer_of env tbl seq i
      \<and> same_classes tbl (Vertices st)
      \<and> (\<forall>j. i \<le> j \<and> j < i + kmer_len env \<longrightarrow> seq ! j \<noteq> PLACEHOLDER_NUCLEOTIDE)
      \<and> (on \<longrightarrow> idx us < i
            \<and> (\<forall>j. idx us \<le> j \<and> j < i \<longrightarrow> seq ! j \<noteq> PLACEHOLDER_NUCLEOTIDE)
            \<and> (\<forall>j. idx us \<le> j \<and> j < i \<longrightarrow> \<not> unitig_end env tbl seq j)))"

definition walk_post ::
  "Env \<Rightarrow> (nat \<Rightarrow> State) \<Rightarrow> string \<Rightarrow> nat \<Rightarrow> nat \<Rightarrow> bool \<Rightarrow> nat \<Rightarrow> nat \<Rightarrow> (nat \<times> nat) list \<Rightarrow> bool" where
  "walk_post env tbl seq right_end i on s0 r new =
     (i + kmer_len env \<le> r \<and> r \<le> length seq
      \<and> (\<forall>j. i \<le> j \<and> j < r \<longrightarrow> seq ! j \<noteq> PLACEHOLDER_NUCLEOTIDE)
      \<and> (r = length seq \<or> seq ! r = PLACEHOLDER_NUCLEOTIDE \<or> right_end + kmer_len env < r)
      \<and> (\<forall>(s, e) \<in> set new. s \<le> e \<and> e + kmer_len env \<le> r \<and> unitig_end env tbl seq e
            \<and> (\<forall>j. s \<le> j \<and> j < e \<longrightarrow> \<not> unitig_end env tbl seq j)
            \<and> (on \<and> s = s0 \<or> i \<le> s \<and> s \<le> right_end \<and> starts_at env tbl seq s))
      \<and> (on \<longrightarrow> (\<exists>e. (s0, e) \<in> set new))
      \<and> (\<forall>s. i \<le> s \<and> s \<le> right_end \<and> s + kmer_len env \<le> r \<and> starts_at env tbl seq s
            \<longrightarrow> (\<exists>e. (s, e) \<in> set new)))"


section \<open>An instance\<close>

text \<open>
  A small environment for the examples: \<open>k = 3\<close>; the bucket of a k-mer is its value as
  a number in base 4; the buffers are flushed at two records; in \<open>example_table\<close> no
  vertex has been outputted and every vertex has one neighbour on each side.
\<close>

definition kmer_code :: "kmer_t \<Rightarrow> nat" where
  "kmer_code s = foldl (\<lambda>a c. 4 * a + (if c = CHR ''A'' then 0 else if c = CHR ''C'' then 1
                                       else if c = CHR ''G'' then 2 else 3)) 0 s"

text \<open>
  Modelled from the spec: the two predicates \<^verbatim>\<open>is_unipath_start\<close> and
  \<^verbatim>\<open>is_unipath_end\<close> of section 4.A (their code is in CdBG.hpp, which is not part of
  the sources at hand), on a code of the classes of the vertices (in canonical
  orientation: 0 for one neighbour on each side, 1 for several neighbours on the entering
  side, 2 for several on the leaving side, 3 for several on both): a unitig starts at a
  k-mer that has several neighbours on its entering side or whose predecessor has
  several on its leaving side, and ends symmetrically.
\<close>

definition many_in :: "nat \<Rightarrow> kmer_dir_t \<Rightarrow> bool" where
  "many_in c d = (if d = FWD then c = 1 \<or> c = 3 else c = 2 \<or> c = 3)"

definition many_out :: "nat \<Rightarrow> kmer_dir_t \<Rightarrow> bool" where
  "many_out c d = (if d = FWD then c = 2 \<or> c = 3 else c = 1 \<or> c = 3)"

definition example_env :: Env where
  "example_env =
     \<lparr>kmer_len = 3, bucket_id = kmer_code,
      is_unipath_start = (\<lambda>c d pc pd. many_in c d \<or> many_out pc pd),
      is_unipath_end = (\<lambda>c d nc nd. many_out c d \<or> many_in nc nd),
      MAX_BUFF_SIZE = 2\<rparr>"

definition fresh_CdBG :: "(nat \<Rightarrow> State) \<Rightarrow> CdBG" where
  "fresh_CdBG tbl =
     \<lparr>Vertices = tbl, output_buffer = (\<lambda>t. []), buffer_size = (\<lambda>t. 0),
      first_unitig = (\<lambda>t. None), second_unitig = (\<lambda>t. None), last_unitig = (\<lambda>t. None),
      path_output = (\<lambda>t. None), overlap_output = (\<lambda>t. None),
      seq_count = 0, gfa_file = [], unitig_log = []\<rparr>"

definition example_table :: "nat \<Rightarrow> State" where
  "example_table b = State 0 False"

definition example_state :: CdBG where
  "example_state = fresh_CdBG example_table"


section \<open>Properties of the sharding\<close>

lemma length_spawn_tasks: "length (spawn_tasks T L k s t l) = T - t"
proof (induction T L k s t l rule: spawn_tasks.induct)
  case (1 T L k s t l)
  show ?case
  proof (cases "t < T")
    case True
    with 1 show ?thesis by (subst spawn_tasks.simps) (simp add: Let_def)
  next
    case False
    then show ?thesis by (subst spawn_tasks.simps) simp
  qed
qed

lemma nth_spawn_tasks:
  "i < T - t \<Longrightarrow>
   spawn_tasks T L k s t l ! i =
     (t + i, l + i * s, if t + i = T - 1 then L - k else l + i * s + s - 1)"
proof (induction T L k s t l arbitrary: i rule: spawn_tasks.induct)
  case (1 T L k s t l)
  then have lt: "t < T" by simp
  show ?case
  proof (cases i)
    case 0
    with lt show ?thesis by (subst spawn_tasks.simps) (simp add: Let_def)
  next
    case (Suc j)
    with 1(2) have "j < T - (t + 1)" by simp
    from 1(1)[OF lt refl this] Suc lt show ?thesis
      by (subst spawn_tasks.simps) (simp add: Let_def algebra_simps)
  qed
qed

lemma nth_worker_tasks:
  "t < T \<Longrightarrow>
   worker_tasks T L k ! t =
     (t, t * task_size_of T L k,
      if t = T - 1 then L - k else t * task_size_of T L k + task_size_of T L k - 1)"
  by (simp add: worker_tasks_def nth_spawn_tasks)

lemma last_offset:
  assumes "0 < T"
  shows "(T - 1) * task_size_of T L k \<le> L - k + 1 - task_size_of T L k"
proof -
  let ?n = "L - k + 1" and ?s = "task_size_of T L k"
  have "T * ?s \<le> ?n" unfolding task_size_of_def by simp
  moreover have "T * ?s = (T - 1) * ?s + ?s" using assms by (cases T) simp_all
  ultimately show ?thesis by linarith
qed

text \<open>
  Claim C1, as the code has it. For a sequence of length \<open>L \<ge> k\<close> and a nonzero quotient
  \<open>(L - k + 1) div T\<close>, the loop starts exactly \<open>T\<close> workers; worker \<open>t\<close> gets the
  \<open>t\<close>-th range, which begins at \<open>t * ((L - k + 1) div T)\<close>; every range but the last
  holds \<open>(L - k + 1) div T\<close> indices (the quotient rounded down, not up); the last range
  ends at \<open>L - k\<close> and holds the quotient plus the remainder \<open>(L - k + 1) mod T\<close>; and
  every k-mer index of \<open>[0, L - k]\<close> lies in exactly one range.
\<close>

theorem shards_partition:
  assumes "k \<le> L" and "0 < task_size_of T L k"
  shows "length (worker_tasks T L k) = T
    \<and> (\<forall>t<T. fst (worker_tasks T L k ! t) = t
            \<and> fst (snd (worker_tasks T L k ! t)) = t * task_size_of T L k)
    \<and> (\<forall>t<T. t \<noteq> T - 1 \<longrightarrow> range_size (worker_tasks T L k ! t) = (L - k + 1) div T)
    \<and> (\<forall>t<T. t = T - 1 \<longrightarrow> snd (snd (worker_tasks T L k ! t)) = L - k
            \<and> range_size (worker_tasks T L k ! t) = (L - k + 1) div T + (L - k + 1) mod T)
    \<and> (\<forall>i\<le>L - k. \<exists>!t. t < T \<and> fst (snd (worker_tasks T L k ! t)) \<le> i
            \<and> i \<le> snd (snd (worker_tasks T L k ! t)))"
proof -
  let ?n = "L - k + 1" and ?s = "task_size_of T L k"
  have T: "0 < T" using assms(2) by (cases T) (simp_all add: task_size_of_def)
  have s: "?s = ?n div T" by (simp add: task_size_of_def)
  have len: "length (worker_tasks T L k) = T"
    by (simp add: worker_tasks_def length_spawn_tasks)
  have ids: "\<forall>t<T. fst (worker_tasks T L k ! t) = t
            \<and> fst (snd (worker_tasks T L k ! t)) = t * ?s"
    by (simp add: nth_worker_tasks)
  have inner: "\<forall>t<T. t \<noteq> T - 1 \<longrightarrow> range_size (worker_tasks T L k ! t) = ?n div T"
    using assms(2) by (simp add: nth_worker_tasks range_size_def s)
  have off: "(T - 1) * ?s \<le> ?n - ?s" using last_offset[OF T] .
  have "T * ?s + ?n mod T = ?n" unfolding s by simp
  moreover have "T * ?s = (T - 1) * ?s + ?s" using T by (cases T) simp_all
  ultimately have "?n - (T - 1) * ?s = ?s + ?n mod T" by linarith
  then have lastr: "\<forall>t<T. t = T - 1 \<longrightarrow> snd (snd (worker_tasks T L k ! t)) = L - k
            \<and> range_size (worker_tasks T L k ! t) = ?n div T + ?n mod T"
    using assms(1) by (simp add: nth_worker_tasks range_size_def s)
  have part: "\<forall>i\<le>L - k. \<exists>!t. t < T \<and> fst (snd (worker_tasks T L k ! t)) \<le> i
            \<and> i \<le> snd (snd (worker_tasks T L k ! t))"
  proof (intro allI impI)
    fix i assume i: "i \<le> L - k"
    define t where "t = min (i div ?s) (T - 1)"
    have tT: "t < T" using T by (simp add: t_def)
    have lo: "t * ?s \<le> i"
    proof -
      have "t * ?s \<le> (i div ?s) * ?s" by (simp add: t_def)
      also have "\<dots> \<le> i" by simp
      finally show ?thesis .
    qed
    have hi: "t \<noteq> T - 1 \<Longrightarrow> i \<le> t * ?s + ?s - 1"
    proof -
      assume "t \<noteq> T - 1"
      then have "t = i div ?s" by (simp add: t_def min_def split: if_splits)
      moreover have "i < (i div ?s) * ?s + ?s" using assms(2)
        by (metis add.commute div_mult_mod_eq mod_less_divisor nat_add_left_cancel_less mult.commute)
      ultimately show ?thesis by simp
    qed
    show "\<exists>!t. t < T \<and> fst (snd (worker_tasks T L k ! t)) \<le> i
            \<and> i \<le> snd (snd (worker_tasks T L k ! t))"
    proof (rule ex1I[of _ t])
      show "t < T \<and> fst (snd (worker_tasks T L k ! t)) \<le> i
            \<and> i \<le> snd (snd (worker_tasks T L k ! t))"
        using tT lo hi i by (simp add: nth_worker_tasks)
    next
      fix u assume u: "u < T \<and> fst (snd (worker_tasks T L k ! u)) \<le> i
            \<and> i \<le> snd (snd (worker_tasks T L k ! u))"
      then have uT: "u < T" by simp
      from u have ulo: "u * ?s \<le> i" by (simp add: nth_worker_tasks[OF uT])
      have uhi: "u \<noteq> T - 1 \<Longrightarrow> i < (u + 1) * ?s"
      proof -
        assume "u \<noteq> T - 1"
        with u have "i \<le> u * ?s + ?s - 1" by (simp add: nth_worker_tasks[OF uT])
        with assms(2) have "i < u * ?s + ?s" by linarith
        then show ?thesis by simp
      qed
      have thi: "t \<noteq> T - 1 \<Longrightarrow> i < (t + 1) * ?s"
      proof -
        assume "t \<noteq> T - 1"
        from hi[OF this] assms(2) have "i < t * ?s + ?s" by linarith
        then show ?thesis by simp
      qed
      show "u = t"
      proof (rule ccontr)
        assume "u \<noteq> t"
        then consider "u < t" | "t < u" by linarith
        then show False
        proof cases
          case 1
          then have "u \<noteq> T - 1" using tT by simp
          from uhi[OF this] have "i < (u + 1) * ?s" .
          moreover have "(u + 1) * ?s \<le> t * ?s" using 1 by (intro mult_le_mono1) simp
          ultimately show False using lo by simp
        next
          case 2
          then have "t \<noteq> T - 1" using uT by simp
          from thi[OF this] have "i < (t + 1) * ?s" .
          moreover have "(t + 1) * ?s \<le> u * ?s" using 2 by (intro mult_le_mono1) simp
          ultimately show False using ulo by simp
        qed
      qed
    qed
  qed
  from len ids inner lastr part show ?thesis by blast
qed

text \<open>The theorem at \<open>L = 12\<close>, \<open>k = 3\<close>, \<open>T = 3\<close>: ten k-mer indices, ranges of 3, 3 and 4.\<close>

theorem shards_partition_witness:
  "(3::nat) \<le> 12 \<and> 0 < task_size_of 3 12 3
   \<and> worker_tasks 3 12 3 = [(0, 0, 2), (1, 3, 5), (2, 6, 9)]
   \<and> range_size (worker_tasks 3 12 3 ! 2) = (12 - 3 + 1) div 3 + (12 - 3 + 1) mod 3"
proof -
  have h1: "(3::nat) \<le> 12" by simp
  have h2: "0 < task_size_of 3 12 3" by (simp add: task_size_of_def)
  have w: "worker_tasks 3 12 3 = [(0, 0, 2), (1, 3, 5), (2, 6, 9)]"
    by (simp add: worker_tasks_def task_size_of_def spawn_tasks.simps)
  from shards_partition[OF h1 h2] have "range_size (worker_tasks 3 12 3 ! 2) = (12 - 3 + 1) div 3 + (12 - 3 + 1) mod 3"
    by simp
  with h1 h2 w show ?thesis by simp
qed

text \<open>
  With the quotient rounded up, as C1 words it, each range of that input would hold
  \<open>\<lceil>10 / 3\<rceil> = 4\<close> indices; the first worker gets \<open>[0, 2]\<close>, three indices.
\<close>

theorem shards_ceiling_counterexample:
  "(3::nat) \<le> 12 \<and> 0 < task_size_of 3 12 3
   \<and> worker_tasks 3 12 3 ! 0 = (0, 0, 2)
   \<and> range_size (worker_tasks 3 12 3 ! 0) \<noteq> (12 - 3 + 1 + 3 - 1) div 3"
  by (simp add: worker_tasks_def task_size_of_def spawn_tasks.simps range_size_def)

section \<open>The emission of a unitig\<close>

lemma fill_buffer_fields [simp]:
  "Vertices (fill_buffer env t n st) = Vertices st"
  "first_unitig (fill_buffer env t n st) = first_unitig st"
  "second_unitig (fill_buffer env t n st) = second_unitig st"
  "last_unitig (fill_buffer env t n st) = last_unitig st"
  "path_output (fill_buffer env t n st) = path_output st"
  "overlap_output (fill_buffer env t n st) = overlap_output st"
  "seq_count (fill_buffer env t n st) = seq_count st"
  "unitig_log (fill_buffer env t n st) = unitig_log st"
  by (simp_all add: fill_buffer_def flush_buffer_def Let_def)

lemma fill_buffer_stream:
  "gfa_file (fill_buffer env t n st) @ output_buffer (fill_buffer env t n st) t
     = gfa_file st @ output_buffer st t"
  by (simp add: fill_buffer_def flush_buffer_def Let_def)

lemma write_gfa_link_fields [simp]:
  "Vertices (write_gfa_link env t l r st) = Vertices st"
  "first_unitig (write_gfa_link env t l r st) = first_unitig st"
  "second_unitig (write_gfa_link env t l r st) = second_unitig st"
  "last_unitig (write_gfa_link env t l r st) = last_unitig st"
  "path_output (write_gfa_link env t l r st) = path_output st"
  "overlap_output (write_gfa_link env t l r st) = overlap_output st"
  "seq_count (write_gfa_link env t l r st) = seq_count st"
  "unitig_log (write_gfa_link env t l r st) = unitig_log st"
  by (simp_all add: write_gfa_link_def Let_def)

lemma append_link_to_path_fields [simp]:
  "Vertices (append_link_to_path env t l r st) = Vertices st"
  "first_unitig (append_link_to_path env t l r st) = first_unitig st"
  "second_unitig (append_link_to_path env t l r st) = second_unitig st"
  "last_unitig (append_link_to_path env t l r st) = last_unitig st"
  "output_buffer (append_link_to_path env t l r st) = output_buffer st"
  "buffer_size (append_link_to_path env t l r st) = buffer_size st"
  "gfa_file (append_link_to_path env t l r st) = gfa_file st"
  "seq_count (append_link_to_path env t l r st) = seq_count st"
  "unitig_log (append_link_to_path env t l r st) = unitig_log st"
  by (simp_all add: append_link_to_path_def)

lemma write_gfa_segment_fields:
  assumes "write_gfa_segment env t seq name s e d st = Inr st'"
  shows "Vertices st' = Vertices st" "first_unitig st' = first_unitig st"
    "second_unitig st' = second_unitig st" "last_unitig st' = last_unitig st"
    "path_output st' = path_output st" "overlap_output st' = overlap_output st"
    "seq_count st' = seq_count st" "unitig_log st' = unitig_log st"
  using assms by (auto simp: write_gfa_segment_def Let_def split: sum.splits)

lemma output_possible_link_last [simp]:
  "last_unitig (output_possible_link env t u st) t = Some u"
  by (simp add: output_possible_link_def Let_def split: option.splits)

lemma output_possible_link_first:
  "first_unitig (output_possible_link env t u st) t \<noteq> None"
  by (simp add: output_possible_link_def Let_def split: option.splits)

lemma output_unitig_gfa_last:
  assumes "output_unitig_gfa env t seq s e st = Inr st'"
  shows "last_unitig st' t =
     Some \<lparr>unitig_id = bucket_id env (min (canonical s) (canonical e)),
           dir = (if kmer s < rev_compl e then FWD else BWD),
           start_kmer_idx = idx s, end_kmer_idx = idx e\<rparr>"
  using assms by (auto simp: output_unitig_gfa_def Let_def split: sum.splits if_splits)

text \<open>
  Claim C4. Whenever \<^verbatim>\<open>output_unitig_gfa\<close> returns, the oriented unitig it has recorded as
  the last one of the thread spans the indices of the two flanking k-mers, and its
  direction is \<open>FWD\<close> exactly when the k-mer of \<open>start_kmer\<close> is smaller than the reverse
  complement of \<open>end_kmer\<close>, and \<open>BWD\<close> otherwise: whatever the thread, the state, and
  the directions \<open>kdir\<close> in which the walker met the two k-mers.
\<close>

theorem unitig_orientation:
  assumes "output_unitig_gfa env thread_id seq start_kmer end_kmer st = Inr st'"
  shows "\<exists>u. last_unitig st' thread_id = Some u
      \<and> start_kmer_idx u = idx start_kmer \<and> end_kmer_idx u = idx end_kmer
      \<and> (dir u = FWD \<longleftrightarrow> kmer start_kmer < rev_compl end_kmer)
      \<and> (dir u = BWD \<longleftrightarrow> \<not> kmer start_kmer < rev_compl end_kmer)"
  using output_unitig_gfa_last[OF assms] by simp

text \<open>
  The unitig of \<open>ACGTT\<close> from \<open>ACG\<close> to \<open>GTT\<close>: \<open>ACG\<close> is not smaller than \<open>AAC\<close>,
  the reverse complement of \<open>GTT\<close>, and the direction is \<open>BWD\<close>.
\<close>

theorem unitig_orientation_witness:
  "\<exists>st'. output_unitig_gfa example_env 0 ''ACGTT''
            (annotate example_env ''ACG'' 0 (\<lambda>b. State 0 False))
            (annotate example_env ''GTT'' 2 (\<lambda>b. State 0 False))
            (fresh_CdBG (\<lambda>b. State 0 False)) = Inr st'
     \<and> map_option dir (last_unitig st' 0) = Some BWD
     \<and> map_option start_kmer_idx (last_unitig st' 0) = Some 0
     \<and> map_option end_kmer_idx (last_unitig st' 0) = Some 2"
proof -
  let ?s = "annotate example_env ''ACG'' 0 (\<lambda>b. State 0 False)"
  let ?e = "annotate example_env ''GTT'' 2 (\<lambda>b. State 0 False)"
  let ?X = "output_unitig_gfa example_env 0 ''ACGTT'' ?s ?e (fresh_CdBG (\<lambda>b. State 0 False))"
  have "\<not> isl ?X" by code_simp
  then obtain st' where r: "?X = Inr st'" by (cases ?X) auto
  have ord: "\<not> kmer ?s < rev_compl ?e" by code_simp
  have i: "idx ?s = 0" "idx ?e = 2" by (simp_all add: annotate_def Let_def)
  from unitig_orientation[OF r] ord i r show ?thesis by auto
qed

lemma reverse_complement_involution:
  assumes "\<forall>c \<in> set s. nucleotide c"
  shows "reverse_complement (reverse_complement s) = s"
proof -
  have "map (\<lambda>c. case complement c of Inl e \<Rightarrow> c | Inr c' \<Rightarrow> c')
          (map (\<lambda>c. case complement c of Inl e \<Rightarrow> c | Inr c' \<Rightarrow> c') s) = s"
    using assms by (induction s) (auto simp: nucleotide_def complement_def)
  then show ?thesis by (simp add: reverse_complement_def rev_map)
qed

lemma canonical_reverse_complement:
  assumes "\<forall>c \<in> set s. nucleotide c"
  shows "canonical (annotate env (reverse_complement s) i tbl) = canonical (annotate env s j tbl')"
  using reverse_complement_involution[OF assms]
  by (simp add: annotate_def Let_def min.commute)

text \<open>
  Claim C5. The identifier of the unitig recorded by \<^verbatim>\<open>output_unitig_gfa\<close> is the bucket of
  the smaller of the canonical forms of the two flanking k-mers. Two calls whose
  flanking k-mers have the same two canonical forms (in the same order, or exchanged)
  record the same identifier, whatever their threads, sequences and states. The
  traversal of a unitig in the other direction is such a call: its flanking k-mers are
  the reverse complements of the flanking k-mers \<open>b\<close> and \<open>a\<close>, in this order, and when
  these are made of nucleotides they have the canonical forms of \<open>a\<close> and \<open>b\<close>.
\<close>

theorem unitig_id_deterministic:
  assumes "output_unitig_gfa env t seq s e st = Inr st'"
    and "output_unitig_gfa env t2 seq2 s2 e2 st2 = Inr st2'"
    and "{canonical s2, canonical e2} = {canonical s, canonical e}"
  shows "(\<exists>u u2. last_unitig st' t = Some u \<and> last_unitig st2' t2 = Some u2
      \<and> unitig_id u = bucket_id env (min (canonical s) (canonical e))
      \<and> unitig_id u2 = unitig_id u)
    \<and> ((\<forall>c \<in> set a \<union> set b. nucleotide c) \<longrightarrow>
         {canonical (annotate env (reverse_complement b) i tbl),
          canonical (annotate env (reverse_complement a) j tbl)}
           = {canonical (annotate env a i' tbl'), canonical (annotate env b j' tbl')})"
proof
  from assms(3) have "min (canonical s2) (canonical e2) = min (canonical s) (canonical e)"
    by (auto simp: doubleton_eq_iff min_def)
  with output_unitig_gfa_last[OF assms(1)] output_unitig_gfa_last[OF assms(2)]
  show "\<exists>u u2. last_unitig st' t = Some u \<and> last_unitig st2' t2 = Some u2
      \<and> unitig_id u = bucket_id env (min (canonical s) (canonical e))
      \<and> unitig_id u2 = unitig_id u" by simp
next
  show "(\<forall>c \<in> set a \<union> set b. nucleotide c) \<longrightarrow>
         {canonical (annotate env (reverse_complement b) i tbl),
          canonical (annotate env (reverse_complement a) j tbl)}
           = {canonical (annotate env a i' tbl'), canonical (annotate env b j' tbl')}"
  proof
    assume n: "\<forall>c \<in> set a \<union> set b. nucleotide c"
    then have "canonical (annotate env (reverse_complement b) i tbl) = canonical (annotate env b j' tbl')"
      "canonical (annotate env (reverse_complement a) j tbl) = canonical (annotate env a i' tbl')"
      by (auto intro: canonical_reverse_complement)
    then show "{canonical (annotate env (reverse_complement b) i tbl),
          canonical (annotate env (reverse_complement a) j tbl)}
           = {canonical (annotate env a i' tbl'), canonical (annotate env b j' tbl')}" by auto
  qed
qed

text \<open>
  The unitig \<open>ACGTT\<close>, emitted by thread 0, and its traversal in the other direction,
  \<open>AACGT\<close>, emitted by thread 1: both get the bucket of \<open>AAC\<close>.
\<close>

theorem unitig_id_deterministic_witness:
  "\<exists>st' st2'. output_unitig_gfa example_env 0 ''ACGTT''
            (annotate example_env ''ACG'' 0 example_table)
            (annotate example_env ''GTT'' 2 example_table) example_state = Inr st'
     \<and> output_unitig_gfa example_env 1 ''AACGT''
            (annotate example_env (reverse_complement ''GTT'') 0 example_table)
            (annotate example_env (reverse_complement ''ACG'') 2 example_table) example_state = Inr st2'
     \<and> map_option unitig_id (last_unitig st' 0) = Some 1
     \<and> map_option unitig_id (last_unitig st2' 1) = Some 1"
proof -
  let ?s = "annotate example_env ''ACG'' 0 example_table"
  let ?e = "annotate example_env ''GTT'' 2 example_table"
  let ?s2 = "annotate example_env (reverse_complement ''GTT'') 0 example_table"
  let ?e2 = "annotate example_env (reverse_complement ''ACG'') 2 example_table"
  let ?X = "output_unitig_gfa example_env 0 ''ACGTT'' ?s ?e example_state"
  let ?Y = "output_unitig_gfa example_env 1 ''AACGT'' ?s2 ?e2 example_state"
  have "\<not> isl ?X" by code_simp
  then obtain st' where r: "?X = Inr st'" by (cases ?X) auto
  have "\<not> isl ?Y" by code_simp
  then obtain st2' where r2: "?Y = Inr st2'" by (cases ?Y) auto
  have n: "\<forall>c \<in> set ''ACG'' \<union> set ''GTT''. nucleotide c" by (simp add: nucleotide_def)
  have b: "bucket_id example_env (min (canonical ?s) (canonical ?e)) = 1" by code_simp
  from unitig_id_deterministic[OF r r, of "''ACG''" "''GTT''" 0 example_table 2 0 example_table 2] n
  have sets: "{canonical ?s2, canonical ?e2} = {canonical ?s, canonical ?e}" by simp
  from unitig_id_deterministic[OF r r2 sets]
  obtain u u2 where u: "last_unitig st' 0 = Some u" "last_unitig st2' 1 = Some u2"
      "unitig_id u = bucket_id example_env (min (canonical ?s) (canonical ?e))"
      "unitig_id u2 = unitig_id u" by blast
  from u b have "map_option unitig_id (last_unitig st' 0) = Some 1"
      "map_option unitig_id (last_unitig st2' 1) = Some 1" by simp_all
  with r r2 show ?thesis by blast
qed

section \<open>Properties kept by the walker\<close>

lemma emission_invariantD:
  "emission_invariant P \<Longrightarrow> P st \<Longrightarrow> output_unitig_gfa env t seq s e st = Inr st' \<Longrightarrow> P st'"
  unfolding emission_invariant_def by blast

lemma walk_body_preserves:
  assumes "emission_invariant P" and "P st"
    and "walk_body env t seq i on us c n st = Inr res"
  shows "case res of Returned r st' \<Rightarrow> P st' | Continue on' us' c' n' st' \<Rightarrow> P st'"
  using assms(2,3)
  by (auto simp: walk_body_def Let_def split: if_splits sum.splits
      intro: emission_invariantD[OF assms(1)])

lemma walk_rest_preserves:
  assumes inv: "emission_invariant P"
  shows "P st \<Longrightarrow> walk_rest env t seq r i on us c n st = Inr (ret, st') \<Longrightarrow> P st'"
proof (induction env t seq r i on us c n st rule: walk_rest.induct)
  case (1 env thread_id seq right_end kmer_idx on_unipath unipath_start_kmer curr_kmer next_kmer st)
  show ?case
  proof (cases "on_unipath \<or> kmer_idx \<le> right_end")
    case False
    with "1.prems" show ?thesis by (simp add: walk_rest.simps)
  next
    case True
    with "1.prems"(2) obtain res where
      body: "walk_body env thread_id seq kmer_idx on_unipath unipath_start_kmer curr_kmer next_kmer st = Inr res"
      by (subst (asm) walk_rest.simps) (auto split: sum.splits)
    note pres = walk_body_preserves[OF inv "1.prems"(1) body]
    show ?thesis
    proof (cases res)
      case (Returned r' st'')
      with True body "1.prems"(2) pres show ?thesis
        by (subst (asm) walk_rest.simps) simp
    next
      case (Continue on' us' c' n' st'')
      with True body "1.prems"(2) have
        "walk_rest env thread_id seq right_end (kmer_idx + 1) on' us' c' n' st'' = Inr (ret, st')"
        by (subst (asm) walk_rest.simps) simp
      moreover from pres Continue have "P st''" by simp
      ultimately show ?thesis using "1.IH"[OF True body Continue] by blast
    qed
  qed
qed

lemma walk_first_preserves:
  assumes "emission_invariant P" and "P st"
    and "walk_first env t seq i st = Inr res"
  shows "case res of Returned r st' \<Rightarrow> P st' | Continue on' us' c' n' st' \<Rightarrow> P st'"
  using assms(2,3)
  by (auto simp: walk_first_def Let_def split: if_splits sum.splits
      intro: emission_invariantD[OF assms(1)])

lemma walk_preserves:
  assumes inv: "emission_invariant P" and "P st"
    and "output_maximal_unitigs_gfa_walk env t seq r i st = Inr (ret, st')"
  shows "P st'"
proof -
  from assms(3) obtain res where first: "walk_first env t seq i st = Inr res"
    by (auto simp: output_maximal_unitigs_gfa_walk_def split: sum.splits)
  note pres = walk_first_preserves[OF inv assms(2) first]
  show ?thesis
  proof (cases res)
    case (Returned r' st'')
    with first assms(3) pres show ?thesis
      by (simp add: output_maximal_unitigs_gfa_walk_def)
  next
    case (Continue on' us' c' n' st'')
    with first assms(3) have "walk_rest env t seq r (i + 1) on' us' c' n' st'' = Inr (ret, st')"
      by (simp add: output_maximal_unitigs_gfa_walk_def)
    moreover from pres Continue have "P st''" by simp
    ultimately show ?thesis using walk_rest_preserves[OF inv] by blast
  qed
qed

lemma output_gfa_off_substring_preserves:
  assumes inv: "emission_invariant P"
  shows "P st \<Longrightarrow> output_gfa_off_substring env t seq i r st = Inr st' \<Longrightarrow> P st'"
proof (induction env t seq i r st rule: output_gfa_off_substring.induct)
  case (1 env thread_id seq kmer_idx right_end st)
  show ?case
  proof (cases "kmer_idx \<le> right_end \<and> \<not> right_end < search_valid_kmer env seq kmer_idx right_end")
    case False
    with "1.prems" show ?thesis
      by (subst (asm) output_gfa_off_substring.simps) (auto simp: Let_def split: if_splits)
  next
    case True
    let ?found = "search_valid_kmer env seq kmer_idx right_end"
    from True "1.prems"(2) obtain next_idx st1 where
      w: "output_maximal_unitigs_gfa_walk env thread_id seq right_end ?found st = Inr (next_idx, st1)"
      and adv: "\<not> next_idx \<le> kmer_idx"
      and rest: "output_gfa_off_substring env thread_id seq next_idx right_end st1 = Inr st'"
      by (subst (asm) output_gfa_off_substring.simps)
         (auto simp: Let_def split: if_splits sum.splits prod.splits)
    from walk_preserves[OF inv "1.prems"(1) w] have "P st1" .
    with "1.IH"[OF _ refl _ w refl adv] True rest show ?thesis by simp
  qed
qed

lemma run_tasks_preserves:
  assumes inv: "emission_invariant P"
  shows "P st \<Longrightarrow> run_tasks env seq tasks st = Inr st' \<Longrightarrow> P st'"
proof (induction tasks arbitrary: st)
  case Nil
  then show ?case by simp
next
  case (Cons task tasks)
  obtain t l r where task: "task = (t, l, r)" by (cases task)
  from Cons.prems(2) task obtain st1 where
    a: "output_gfa_off_substring env t seq l r st = Inr st1" and b: "run_tasks env seq tasks st1 = Inr st'"
    by (auto split: sum.splits)
  from output_gfa_off_substring_preserves[OF inv Cons.prems(1) a] have "P st1" .
  from Cons.IH[OF this b] show ?case .
qed

section \<open>The witnesses of a thread\<close>

lemma output_possible_link_consistent:
  "witnesses_consistent t st \<Longrightarrow> witnesses_consistent t (output_possible_link env t' u st)"
  by (auto simp: witnesses_consistent_def output_possible_link_def Let_def split: option.splits)

lemma output_unitig_gfa_cases:
  assumes "output_unitig_gfa env t seq s e st = Inr st'"
  obtains st2 where
    "st' = output_possible_link env t
             \<lparr>unitig_id = bucket_id env (min (canonical s) (canonical e)),
              dir = (if kmer s < rev_compl e then FWD else BWD),
              start_kmer_idx = idx s, end_kmer_idx = idx e\<rparr> st2"
    and "first_unitig st2 = first_unitig st" and "second_unitig st2 = second_unitig st"
    and "last_unitig st2 = last_unitig st" and "path_output st2 = path_output st"
    and "overlap_output st2 = overlap_output st" and "seq_count st2 = seq_count st"
    and "unitig_log st2 = unitig_log st @ [(t, idx s, idx e)]"
proof -
  let ?b = "bucket_id env (min (canonical s) (canonical e))"
  let ?won = "try_output (Vertices st) (hash_table_entry (Vertices st) ?b)"
  let ?st1 = "st\<lparr>Vertices := fst ?won, unitig_log := unitig_log st @ [(t, idx s, idx e)]\<rparr>"
  let ?u = "\<lparr>unitig_id = ?b, dir = (if kmer s < rev_compl e then FWD else BWD),
              start_kmer_idx = idx s, end_kmer_idx = idx e\<rparr>"
  show ?thesis
  proof (cases "snd ?won")
    case True
    with assms obtain st2 where
      w: "write_gfa_segment env t seq ?b (idx s) (idx e) (if kmer s < rev_compl e then FWD else BWD) ?st1 = Inr st2"
      and st': "st' = output_possible_link env t ?u st2"
      by (simp add: output_unitig_gfa_def Let_def split: sum.splits)
    from write_gfa_segment_fields[OF w] st' that show ?thesis by simp
  next
    case False
    with assms have "st' = output_possible_link env t ?u ?st1"
      by (simp add: output_unitig_gfa_def Let_def)
    with that[of ?st1] show ?thesis by simp
  qed
qed

lemma output_unitig_gfa_consistent:
  assumes "witnesses_consistent t st" and "output_unitig_gfa env t' seq s e st = Inr st'"
  shows "witnesses_consistent t st'"
proof -
  from assms(2) obtain st2 u where st2: "st' = output_possible_link env t' u st2"
    and "first_unitig st2 = first_unitig st" "second_unitig st2 = second_unitig st"
      "last_unitig st2 = last_unitig st"
    by (rule output_unitig_gfa_cases)
  with assms(1) have "witnesses_consistent t st2" by (simp add: witnesses_consistent_def)
  with st2 show ?thesis by (simp add: output_possible_link_consistent)
qed

lemma consistent_invariant: "emission_invariant (witnesses_consistent t)"
  unfolding emission_invariant_def using output_unitig_gfa_consistent by blast

lemma emit_all_preserves:
  assumes inv: "emission_invariant P"
  shows "P st \<Longrightarrow> emit_all env calls st = Inr st' \<Longrightarrow> P st'"
proof (induction calls arbitrary: st)
  case Nil
  then show ?case by simp
next
  case (Cons call calls)
  obtain t seq s e where call: "call = (t, seq, s, e)" by (cases call)
  from Cons.prems(2) call obtain st1 where
    a: "output_unitig_gfa env t seq s e st = Inr st1" and b: "emit_all env calls st1 = Inr st'"
    by (auto split: sum.splits)
  from emission_invariantD[OF inv Cons.prems(1) a] have "P st1" .
  from Cons.IH[OF this b] show ?case .
qed

lemma inter_thread_links_from_preserves:
  assumes link: "\<And>env t l r st. P st \<Longrightarrow> P (write_gfa_link env t l r st)"
    and path: "\<And>env t l r st. P st \<Longrightarrow> P (append_link_to_path env t l r st)"
  shows "P st \<Longrightarrow> P (inter_thread_links_from env T t l lt st)"
proof (induction env T t l lt st rule: inter_thread_links_from.induct)
  case (1 env thread_count t_id left_unitig left_t_id st)
  show ?case
  proof (cases "t_id < thread_count")
    case False
    with "1.prems" show ?thesis by (subst inter_thread_links_from.simps) simp
  next
    case True
    show ?thesis
    proof (cases left_unitig)
      case None
      with True "1.IH"(1)[OF True None "1.prems"] show ?thesis
        by (subst inter_thread_links_from.simps) simp
    next
      case (Some left)
      show ?thesis
      proof (cases "first_unitig st t_id")
        case None
        with True Some "1.IH"(2)[OF True Some None "1.prems"] show ?thesis
          by (subst inter_thread_links_from.simps) simp
      next
        case (Some right_unitig)
        from "1.prems" have "P (append_link_to_path env left_t_id left right_unitig
                       (write_gfa_link env t_id left right_unitig st))"
          by (intro path link)
        from "1.IH"(3)[OF True \<open>left_unitig = Some left\<close> Some this] True Some \<open>left_unitig = Some left\<close>
        show ?thesis
          by (subst inter_thread_links_from.simps) simp
      qed
    qed
  qed
qed

lemma inter_thread_links_from_witnesses:
  "first_unitig (inter_thread_links_from env T t l lt st) = first_unitig st
   \<and> second_unitig (inter_thread_links_from env T t l lt st) = second_unitig st
   \<and> last_unitig (inter_thread_links_from env T t l lt st) = last_unitig st"
  by (rule inter_thread_links_from_preserves[where P = "\<lambda>s. first_unitig s = first_unitig st
        \<and> second_unitig s = second_unitig st \<and> last_unitig s = last_unitig st"]) simp_all

lemma write_inter_thread_links_consistent:
  "witnesses_consistent t (write_inter_thread_links env T st) = witnesses_consistent t st"
  by (simp add: witnesses_consistent_def write_inter_thread_links_def inter_thread_links_from_witnesses)

lemma reset_consistent: "witnesses_consistent t (reset_path_streams T (reset_unitigs st0))"
  by (simp add: witnesses_consistent_def reset_path_streams_def reset_unitigs_def)

text \<open>
  Claim C10. For every thread \<open>t\<close>: the witnesses are consistent (a valid second unitig
  implies a valid first one, a valid first unitig implies a valid last one) when they
  have been reset for a sequence; they stay so after any list of calls of
  \<^verbatim>\<open>output_unitig_gfa\<close>, by any threads, hence after any prefix of the calls of a thread;
  they stay so when a shard has been processed; and they are so in the state the
  stitcher reads, after the workers of a sequence and the links between the shards.
\<close>

theorem witnesses_consistent_throughout:
  "witnesses_consistent t (reset_path_streams T (reset_unitigs st0))
   \<and> (witnesses_consistent t st \<longrightarrow> emit_all env calls st = Inr st1 \<longrightarrow> witnesses_consistent t st1)
   \<and> (witnesses_consistent t st \<longrightarrow> output_gfa_off_substring env t' seq left_end right_end st = Inr st2
        \<longrightarrow> witnesses_consistent t st2)
   \<and> (write_segments_and_links env T seq (reset_path_streams T (reset_unitigs st0)) = Inr st3
        \<longrightarrow> witnesses_consistent t st3)"
proof -
  note inv = consistent_invariant[of t]
  have a: "witnesses_consistent t (reset_path_streams T (reset_unitigs st0))"
    by (rule reset_consistent)
  have b: "witnesses_consistent t st \<longrightarrow> emit_all env calls st = Inr st1 \<longrightarrow> witnesses_consistent t st1"
    using emit_all_preserves[OF inv] by blast
  have c: "witnesses_consistent t st \<longrightarrow> output_gfa_off_substring env t' seq left_end right_end st = Inr st2
        \<longrightarrow> witnesses_consistent t st2"
    using output_gfa_off_substring_preserves[OF inv] by blast
  have d: "write_segments_and_links env T seq (reset_path_streams T (reset_unitigs st0)) = Inr st3
        \<longrightarrow> witnesses_consistent t st3"
  proof
    assume run: "write_segments_and_links env T seq (reset_path_streams T (reset_unitigs st0)) = Inr st3"
    let ?st = "reset_path_streams T (reset_unitigs st0)"
    show "witnesses_consistent t st3"
    proof (cases "task_size_of T (length seq) (kmer_len env) = 0")
      case True
      with run have "output_gfa_off_substring env 0 seq 0 (length seq - kmer_len env) ?st = Inr st3"
        by (simp add: write_segments_and_links_def split: if_splits)
      from output_gfa_off_substring_preserves[OF inv a this] show ?thesis .
    next
      case False
      with run obtain st' where r: "run_tasks env seq (worker_tasks T (length seq) (kmer_len env)) ?st = Inr st'"
        and st3: "st3 = write_inter_thread_links env T st'"
        by (auto simp: write_segments_and_links_def split: if_splits sum.splits)
      from run_tasks_preserves[OF inv a r] have "witnesses_consistent t st'" .
      with st3 show ?thesis by (simp add: write_inter_thread_links_consistent)
    qed
  qed
  from a b c d show ?thesis by blast
qed

text \<open>
  The sequence \<open>ACGTT\<close> on two threads, with a vertex \<open>ACG\<close> that has several
  successors: each thread emits one unitig.
\<close>

theorem witnesses_consistent_throughout_witness:
  "\<exists>st3. write_segments_and_links example_env 2 ''ACGTT''
            (reset_path_streams 2 (reset_unitigs (fresh_CdBG (\<lambda>b. State (if b = 6 then 2 else 0) False))))
          = Inr st3
     \<and> witnesses_consistent 0 st3 \<and> witnesses_consistent 1 st3
     \<and> first_unitig st3 0 \<noteq> None \<and> last_unitig st3 0 \<noteq> None
     \<and> first_unitig st3 1 \<noteq> None \<and> second_unitig st3 1 = None"
proof -
  let ?st0 = "fresh_CdBG (\<lambda>b. State (if b = 6 then 2 else 0) False)"
  let ?X = "write_segments_and_links example_env 2 ''ACGTT'' (reset_path_streams 2 (reset_unitigs ?st0))"
  have "case ?X of Inl e \<Rightarrow> False
        | Inr st \<Rightarrow> first_unitig st 0 \<noteq> None \<and> last_unitig st 0 \<noteq> None
                     \<and> first_unitig st 1 \<noteq> None \<and> second_unitig st 1 = None"
    by code_simp
  then obtain st3 where r: "?X = Inr st3"
    and v: "first_unitig st3 0 \<noteq> None" "last_unitig st3 0 \<noteq> None"
           "first_unitig st3 1 \<noteq> None" "second_unitig st3 1 = None"
    by (cases ?X) auto
  from witnesses_consistent_throughout[where t = 0 and T = 2 and ?st0.0 = ?st0 and env = example_env
      and seq = "''ACGTT''" and ?st3.0 = st3] r
  have c0: "witnesses_consistent 0 st3" by blast
  from witnesses_consistent_throughout[where t = 1 and T = 2 and ?st0.0 = ?st0 and env = example_env
      and seq = "''ACGTT''" and ?st3.0 = st3] r
  have c1: "witnesses_consistent 1 st3" by blast
  from r v c0 c1 show ?thesis by blast
qed

section \<open>The text of the records\<close>

lemma string_of_int_nonneg: "0 \<le> i \<Longrightarrow> string_of_int i = string_of_nat (nat i)"
  by (simp add: string_of_int_def)

lemma nat_int_pred: "nat (int k - 1) = k - 1"
  by linarith

lemma overlap_uint16:
  assumes "0 < k" and "k < 65536"
  shows "(int k - 1) mod 65536 = int (k - 1)"
  using assms by (simp add: of_nat_diff)

lemma fill_buffer_thread_stream:
  "thread_stream (fill_buffer env t n st) t = thread_stream st t"
  by (simp add: thread_stream_def fill_buffer_stream)

lemma write_gfa_link_stream:
  assumes "0 < kmer_len env" and "kmer_len env < 65536"
  shows "thread_stream (write_gfa_link env t U V st) t
           = thread_stream st t @ link_line (kmer_len env) U V"
proof -
  have ov: "string_of_int (if start_kmer_idx V = end_kmer_idx U + 1
                          then (int (kmer_len env) - 1) mod 65536 else 0)
            = string_of_nat (overlap_length (kmer_len env) U V)"
    using assms by (simp add: overlap_length_def overlap_uint16 string_of_int_nonneg nat_int_pred)
  have sg: "\<And>d. (if d = FWD then ''+'' else ''-'') = gfa_sign d"
    by (simp add: gfa_sign_def split: kmer_dir_t.splits)
  show ?thesis
    unfolding write_gfa_link_def Let_def fill_buffer_thread_stream ov sg
    by (simp add: thread_stream_def link_line_def)
qed

lemma append_link_to_path_entries:
  assumes "0 < kmer_len env"
  shows "path_output (append_link_to_path env t U V st) t
           = append_to (path_output st t) ('','' @ string_of_nat (unitig_id V) @ gfa_sign (dir V))"
    and "overlap_output (append_link_to_path env t U V st) t
           = append_to (overlap_output st t)
               ('','' @ string_of_nat (overlap_length (kmer_len env) U V) @ ''M'')"
proof -
  have "string_of_int (if start_kmer_idx V = end_kmer_idx U + 1 then int (kmer_len env) - 1 else 0)
            = string_of_nat (overlap_length (kmer_len env) U V)"
    using assms by (simp add: overlap_length_def string_of_int_nonneg nat_int_pred)
  then show "overlap_output (append_link_to_path env t U V st) t
           = append_to (overlap_output st t)
               ('','' @ string_of_nat (overlap_length (kmer_len env) U V) @ ''M'')"
    by (simp add: append_link_to_path_def)
  show "path_output (append_link_to_path env t U V st) t
           = append_to (path_output st t) ('','' @ string_of_nat (unitig_id V) @ gfa_sign (dir V))"
    by (simp add: append_link_to_path_def gfa_sign_def split: kmer_dir_t.splits)
qed

text \<open>
  Claim C6. For \<open>0 < k < 2 ^ 16\<close>: \<^verbatim>\<open>write_gfa_link\<close> adds to the stream of the thread
  exactly the line \<open>L\<close>, the two identifiers each followed by its sign, and the overlap
  followed by \<open>M\<close>; \<^verbatim>\<open>append_link_to_path\<close> adds to the path file of the thread a comma,
  the identifier of the right unitig and its sign, and to the overlap file a comma, the
  overlap and \<open>M\<close>; the sign is \<open>+\<close> for \<open>FWD\<close> and \<open>-\<close> for \<open>BWD\<close>; the overlap is
  \<open>k - 1\<close> when the right unitig starts at the index after the end of the left one, and 0
  otherwise. These two functions write every link line and every entry of the
  temporary files.
\<close>

theorem link_records:
  assumes "0 < kmer_len env" and "kmer_len env < 65536"
  shows "thread_stream (write_gfa_link env t U V st) t
           = thread_stream st t @ link_line (kmer_len env) U V
    \<and> path_output (append_link_to_path env t U V st) t
           = append_to (path_output st t) ('','' @ string_of_nat (unitig_id V) @ gfa_sign (dir V))
    \<and> overlap_output (append_link_to_path env t U V st) t
           = append_to (overlap_output st t)
               ('','' @ string_of_nat (overlap_length (kmer_len env) U V) @ ''M'')
    \<and> (gfa_sign (dir V) = ''+'' \<longleftrightarrow> dir V = FWD) \<and> (gfa_sign (dir V) = ''-'' \<longleftrightarrow> dir V = BWD)
    \<and> (start_kmer_idx V = end_kmer_idx U + 1 \<longrightarrow> overlap_length (kmer_len env) U V = kmer_len env - 1)
    \<and> (start_kmer_idx V \<noteq> end_kmer_idx U + 1 \<longrightarrow> overlap_length (kmer_len env) U V = 0)"
  using write_gfa_link_stream[OF assms] append_link_to_path_entries[OF assms(1)]
  by (simp add: gfa_sign_def overlap_length_def split: kmer_dir_t.splits)

text \<open>The link from unitig 6, forward at index 0, to unitig 1, backward from index 1.\<close>

theorem link_records_witness:
  "thread_stream (write_gfa_link example_env 0
       \<lparr>unitig_id = 6, dir = FWD, start_kmer_idx = 0, end_kmer_idx = 0\<rparr>
       \<lparr>unitig_id = 1, dir = BWD, start_kmer_idx = 1, end_kmer_idx = 2\<rparr>
       (fresh_CdBG (\<lambda>b. State 0 False))) 0
     = ''L'' @ [TAB] @ ''6'' @ [TAB] @ ''+'' @ [TAB] @ ''1'' @ [TAB] @ ''-'' @ [TAB] @ ''2M'' @ [NEWLINE]
   \<and> overlap_output (append_link_to_path example_env 0
       \<lparr>unitig_id = 6, dir = FWD, start_kmer_idx = 0, end_kmer_idx = 0\<rparr>
       \<lparr>unitig_id = 1, dir = BWD, start_kmer_idx = 1, end_kmer_idx = 2\<rparr>
       (reset_path_streams 1 (fresh_CdBG (\<lambda>b. State 0 False)))) 0 = Some '',2M''
   \<and> path_output (append_link_to_path example_env 0
       \<lparr>unitig_id = 6, dir = FWD, start_kmer_idx = 0, end_kmer_idx = 0\<rparr>
       \<lparr>unitig_id = 1, dir = BWD, start_kmer_idx = 1, end_kmer_idx = 2\<rparr>
       (reset_path_streams 1 (fresh_CdBG (\<lambda>b. State 0 False)))) 0 = Some '',1-''"
proof -
  let ?U = "\<lparr>unitig_id = 6, dir = FWD, start_kmer_idx = 0, end_kmer_idx = 0\<rparr>"
  let ?V = "\<lparr>unitig_id = 1, dir = BWD, start_kmer_idx = 1, end_kmer_idx = 2\<rparr>"
  have k: "0 < kmer_len example_env" "kmer_len example_env < 65536"
    by (simp_all add: example_env_def)
  have l: "link_line (kmer_len example_env) ?U ?V
             = ''L'' @ [TAB] @ ''6'' @ [TAB] @ ''+'' @ [TAB] @ ''1'' @ [TAB] @ ''-'' @ [TAB] @ ''2M'' @ [NEWLINE]"
    by code_simp
  have o: "string_of_nat (overlap_length (kmer_len example_env) ?U ?V) = ''2''"
    and i: "string_of_nat (unitig_id ?V) = ''1''" and g: "gfa_sign (dir ?V) = ''-''"
    by code_simp+
  have s0: "thread_stream (fresh_CdBG (\<lambda>b. State 0 False)) 0 = []"
    by (simp add: thread_stream_def fresh_CdBG_def)
  have f: "path_output (reset_path_streams 1 (fresh_CdBG (\<lambda>b. State 0 False))) 0 = Some []"
    "overlap_output (reset_path_streams 1 (fresh_CdBG (\<lambda>b. State 0 False))) 0 = Some []"
    by (simp_all add: reset_path_streams_def)
  from link_records[OF k, of 0 ?U ?V "fresh_CdBG (\<lambda>b. State 0 False)"]
  have a: "thread_stream (write_gfa_link example_env 0 ?U ?V (fresh_CdBG (\<lambda>b. State 0 False))) 0
             = link_line (kmer_len example_env) ?U ?V"
    unfolding s0 by simp
  from link_records[OF k, of 0 ?U ?V "reset_path_streams 1 (fresh_CdBG (\<lambda>b. State 0 False))"]
  have b: "path_output (append_link_to_path example_env 0 ?U ?V
              (reset_path_streams 1 (fresh_CdBG (\<lambda>b. State 0 False)))) 0 = Some '',1-''"
    and c: "overlap_output (append_link_to_path example_env 0 ?U ?V
              (reset_path_streams 1 (fresh_CdBG (\<lambda>b. State 0 False)))) 0 = Some '',2M''"
    unfolding f o i g by (simp_all add: append_to_def)
  from a b c l show ?thesis by simp
qed

lemma write_fwd_take:
  "last_idx < length seq \<Longrightarrow> i \<le> last_idx + 1 \<Longrightarrow>
   write_fwd seq i last_idx buffer = Inr (buffer @ take (last_idx + 1 - i) (drop i seq))"
proof (induction seq i last_idx buffer rule: write_fwd.induct)
  case (1 seq i last_idx buffer)
  show ?case
  proof (cases "i \<le> last_idx")
    case False
    with "1.prems" show ?thesis by (subst write_fwd.simps) simp
  next
    case True
    with "1.prems" have lt: "i < length seq" by simp
    have step: "take (last_idx + 1 - i) (drop i seq) = seq ! i # take (last_idx + 1 - (i + 1)) (drop (i + 1) seq)"
    proof -
      from True obtain m where m: "last_idx + 1 - i = Suc m" by (cases "last_idx + 1 - i") auto
      then have "last_idx + 1 - (i + 1) = m" by simp
      with m lt show ?thesis by (simp add: Cons_nth_drop_Suc[symmetric])
    qed
    from "1.IH"[OF True lt] "1.prems" True have
      "write_fwd seq (i + 1) last_idx (buffer @ [seq ! i])
         = Inr ((buffer @ [seq ! i]) @ take (last_idx + 1 - (i + 1)) (drop (i + 1) seq))"
      by simp
    with True lt step show ?thesis by (subst write_fwd.simps) simp
  qed
qed

lemma complement_nucleotide:
  "nucleotide c \<Longrightarrow> \<exists>c'. complement c = Inr c'"
  by (auto simp: nucleotide_def complement_def)

lemma write_bwd_rev:
  "i \<le> length seq \<Longrightarrow> start_idx \<le> i \<Longrightarrow>
   \<forall>j. start_idx \<le> j \<and> j < i \<longrightarrow> nucleotide (seq ! j) \<Longrightarrow>
   write_bwd seq i start_idx buffer
     = Inr (buffer @ reverse_complement (take (i - start_idx) (drop start_idx seq)))"
proof (induction seq i start_idx buffer rule: write_bwd.induct)
  case (1 seq i start_idx buffer)
  show ?case
  proof (cases "start_idx < i")
    case False
    with "1.prems" show ?thesis
      by (subst write_bwd.simps) (simp add: reverse_complement_def)
  next
    case True
    with "1.prems" have lt: "i - 1 < length seq" by simp
    from True "1.prems"(3) have nuc: "nucleotide (seq ! (i - 1))" by simp
    from complement_nucleotide[OF nuc] obtain c' where c: "complement (seq ! (i - 1)) = Inr c'"
      by blast
    have pre: "i - 1 \<le> length seq" "start_idx \<le> i - 1"
      "\<forall>j. start_idx \<le> j \<and> j < i - 1 \<longrightarrow> nucleotide (seq ! j)"
      using True "1.prems" by auto
    from "1.IH"[OF True lt c pre] have ih:
      "write_bwd seq (i - 1) start_idx (buffer @ [c'])
         = Inr ((buffer @ [c']) @ reverse_complement (take (i - 1 - start_idx) (drop start_idx seq)))" .
    have split: "take (i - start_idx) (drop start_idx seq)
                   = take (i - 1 - start_idx) (drop start_idx seq) @ [seq ! (i - 1)]"
    proof -
      from True obtain m where m: "i - start_idx = Suc m" by (cases "i - start_idx") auto
      then have m': "i - 1 - start_idx = m" and i1: "i - 1 = start_idx + m" by simp_all
      have "m < length (drop start_idx seq)" using lt i1 by simp
      then have "take (Suc m) (drop start_idx seq) = take m (drop start_idx seq) @ [drop start_idx seq ! m]"
        by (rule take_Suc_conv_app_nth)
      moreover have "drop start_idx seq ! m = seq ! (i - 1)" using lt i1 by simp
      ultimately show ?thesis using m m' by simp
    qed
    show ?thesis
      using True lt c ih
      by (subst write_bwd.simps) (simp add: split reverse_complement_def)
  qed
qed

text \<open>
  Claim C7. For \<open>0 < k\<close> and a unitig from the k-mer at \<open>start_idx\<close> to the k-mer at
  \<open>end_idx\<close>, both in the sequence (and, for the backward spelling, made of the four
  nucleotides): \<^verbatim>\<open>write_gfa_segment\<close> succeeds and adds to the stream of the thread exactly
  the line \<open>S\<close>, the name, the symbols \<open>seq[start_idx .. end_idx + k - 1]\<close> when the
  direction is \<open>FWD\<close> and their reverse complement when it is \<open>BWD\<close>, the length
  \<open>end_idx - start_idx + k\<close> after \<open>LN:i:\<close> and the number of k-mers
  \<open>end_idx - start_idx + 1\<close> after \<open>KC:i:\<close>.
\<close>

theorem segment_record:
  assumes "0 < kmer_len env" and "start_idx \<le> end_idx" and "end_idx + kmer_len env \<le> length seq"
    and "d = BWD \<longrightarrow> (\<forall>j. start_idx \<le> j \<and> j < end_idx + kmer_len env \<longrightarrow> nucleotide (seq ! j))"
  shows "\<exists>st'. write_gfa_segment env t seq segment_name start_idx end_idx d st = Inr st'
      \<and> thread_stream st' t
          = thread_stream st t @ ''S'' @ [TAB] @ string_of_nat segment_name
              @ [TAB] @ segment_spelling (kmer_len env) seq start_idx end_idx d
              @ [TAB] @ ''LN:i:'' @ string_of_nat (end_idx - start_idx + kmer_len env)
              @ [TAB] @ ''KC:i:'' @ string_of_nat (end_idx - start_idx + 1) @ [NEWLINE]"
proof (cases d)
  case FWD
  have "end_idx + kmer_len env - 1 < length seq" "start_idx \<le> end_idx + kmer_len env - 1 + 1"
    using assms by auto
  from write_fwd_take[OF this] assms(1) have
    "write_fwd seq start_idx (end_idx + kmer_len env - 1)
        (output_buffer st t @ ''S'' @ [TAB] @ string_of_nat segment_name @ [TAB])
       = Inr ((output_buffer st t @ ''S'' @ [TAB] @ string_of_nat segment_name @ [TAB])
               @ take (end_idx + kmer_len env - start_idx) (drop start_idx seq))"
    by simp
  with FWD show ?thesis
    by (simp add: write_gfa_segment_def Let_def fill_buffer_thread_stream segment_spelling_def)
       (simp add: thread_stream_def)
next
  case BWD
  have "end_idx + kmer_len env \<le> length seq" "start_idx \<le> end_idx + kmer_len env"
    using assms by auto
  from write_bwd_rev[OF this] assms(4) BWD have
    "write_bwd seq (end_idx + kmer_len env) start_idx
        (output_buffer st t @ ''S'' @ [TAB] @ string_of_nat segment_name @ [TAB])
       = Inr ((output_buffer st t @ ''S'' @ [TAB] @ string_of_nat segment_name @ [TAB])
               @ reverse_complement (take (end_idx + kmer_len env - start_idx) (drop start_idx seq)))"
    by simp
  with BWD show ?thesis
    by (simp add: write_gfa_segment_def Let_def fill_buffer_thread_stream segment_spelling_def)
       (simp add: thread_stream_def)
qed

text \<open>The unitig \<open>ACGTT\<close> in direction \<open>BWD\<close> is spelled \<open>AACGT\<close>.\<close>

theorem segment_record_witness:
  "\<exists>st'. write_gfa_segment example_env 0 ''ACGTT'' 1 0 2 BWD (fresh_CdBG (\<lambda>b. State 0 False)) = Inr st'
     \<and> thread_stream st' 0
         = ''S'' @ [TAB] @ ''1'' @ [TAB] @ ''AACGT'' @ [TAB] @ ''LN:i:5'' @ [TAB] @ ''KC:i:3'' @ [NEWLINE]"
proof -
  have k: "0 < kmer_len example_env" by (simp add: example_env_def)
  have r: "(0::nat) \<le> 2" by simp
  have b: "2 + kmer_len example_env \<le> length ''ACGTT''" by (simp add: example_env_def)
  have n: "BWD = BWD \<longrightarrow> (\<forall>j. 0 \<le> j \<and> j < 2 + kmer_len example_env \<longrightarrow> nucleotide (''ACGTT'' ! j))"
    by (auto simp: example_env_def nucleotide_def nth_Cons' less_Suc_eq numeral_eq_Suc)
  have sp: "segment_spelling (kmer_len example_env) ''ACGTT'' 0 2 BWD = ''AACGT''"
    by code_simp
  have ln: "string_of_nat (2 - 0 + kmer_len example_env) = ''5''" "string_of_nat (2 - 0 + 1) = ''3''"
    "string_of_nat 1 = ''1''"
    by code_simp+
  have s0: "thread_stream (fresh_CdBG (\<lambda>b. State 0 False)) 0 = []"
    by (simp add: thread_stream_def fresh_CdBG_def)
  from segment_record[OF k r b n, of 0 1 "fresh_CdBG (\<lambda>b. State 0 False)"]
  show ?thesis unfolding sp ln s0 by simp
qed

section \<open>At most one segment for a unitig\<close>

lemma is_outputted_outputted [simp]: "is_outputted (outputted s)"
  by (simp add: outputted_def)

lemma step_invariant:
  assumes "schedule_invariant tbl c"
  shows "schedule_invariant tbl (step ev c)"
proof (cases ev)
  case (Load t b)
  show ?thesis
  proof (cases "handle c t")
    case None
    with Load assms show ?thesis
      by (auto simp: schedule_invariant_def hash_table_entry_def)
  next
    case (Some entry)
    with Load assms show ?thesis by simp
  qed
next
  case (Update t)
  show ?thesis
  proof (cases "handle c t")
    case None
    with Update assms show ?thesis by simp
  next
    case (Some entry)
    from assms Some have same: "state entry = state_read entry"
      by (auto simp: schedule_invariant_def)
    show ?thesis
    proof (cases "snd (try_output (table c) entry)")
      case False
      then have "fst (try_output (table c) entry) = table c"
        by (auto simp: try_output_def update_def split: if_splits)
      with False Update Some assms show ?thesis
        by (auto simp: schedule_invariant_def)
    next
      case True
      then have fresh: "\<not> is_outputted (state entry)"
        and cas: "table c (bucket entry) = state_read entry"
        and tbl': "fst (try_output (table c) entry) = (table c)(bucket entry := outputted (state entry))"
        by (auto simp: try_output_def update_def split: if_splits)
      from fresh cas same have notout: "\<not> is_outputted (table c (bucket entry))" by simp
      have new: "bucket entry \<notin> snd ` set (segments c)"
      proof
        assume "bucket entry \<in> snd ` set (segments c)"
        with assms have "table c (bucket entry) = outputted (tbl (bucket entry))"
          unfolding schedule_invariant_def by presburger
        with notout show False by simp
      qed
      with assms have orig: "table c (bucket entry) = tbl (bucket entry)"
        by (auto simp: schedule_invariant_def)
      have segs: "segments (step ev c) = segments c @ [(t, bucket entry)]"
        and tab: "table (step ev c) = (table c)(bucket entry := outputted (tbl (bucket entry)))"
        and han: "handle (step ev c) = (handle c)(t := None)"
        using Update Some True tbl' same cas orig by simp_all
      have d: "distinct (map snd (segments (step ev c)))"
        using assms new by (simp add: segs schedule_invariant_def)
      have tb: "\<forall>b. table (step ev c) b
                  = (if b \<in> snd ` set (segments (step ev c)) then outputted (tbl b) else tbl b)"
        using assms by (auto simp: segs tab schedule_invariant_def)
      have no: "\<forall>b \<in> snd ` set (segments (step ev c)). \<not> is_outputted (tbl b)"
        using assms notout orig by (auto simp: segs schedule_invariant_def)
      have ha: "\<forall>u e. handle (step ev c) u = Some e \<longrightarrow> state e = state_read e"
        using assms by (auto simp: han schedule_invariant_def split: if_splits)
      from d tb no ha show ?thesis unfolding schedule_invariant_def by blast
    qed
  qed
qed

lemma fold_step_invariant:
  "schedule_invariant tbl c \<Longrightarrow> schedule_invariant tbl (fold step events c)"
  by (induction events arbitrary: c) (simp_all add: step_invariant)

lemma initial_invariant: "schedule_invariant tbl (initial_config tbl)"
  by (simp add: schedule_invariant_def initial_config_def)

text \<open>
  Claim C2. Under every schedule of loads and updates of the threads, from any table: no
  two segments written have the same name, so that at most one segment is written for a
  unitig, by one thread; a segment is written only for a slot whose state was not
  outputted, and the update that wrote it stored the outputted state in the slot; and a
  slot for which no segment has been written is as it was.
\<close>

theorem one_segment_per_unitig:
  "distinct (map snd (segments (run_schedule events (initial_config tbl))))
   \<and> (\<forall>b \<in> snd ` set (segments (run_schedule events (initial_config tbl))).
         \<not> is_outputted (tbl b)
         \<and> table (run_schedule events (initial_config tbl)) b = outputted (tbl b))
   \<and> (\<forall>b. b \<notin> snd ` set (segments (run_schedule events (initial_config tbl))) \<longrightarrow>
         table (run_schedule events (initial_config tbl)) b = tbl b)"
  using fold_step_invariant[OF initial_invariant, of tbl events]
  unfolding run_schedule_def schedule_invariant_def by auto

text \<open>
  Two threads load slot 6 before either updates it: thread 1 updates first and writes the
  segment; the update of thread 0 fails, and so does its next attempt on the slot.
\<close>

theorem one_segment_per_unitig_witness:
  "segments (run_schedule [Load 0 6, Load 1 6, Update 1, Update 0, Load 0 6, Update 0, Load 1 7, Update 1]
      (initial_config (\<lambda>b. State 0 False))) = [(1, 6), (1, 7)]
   \<and> distinct (map snd (segments (run_schedule
        [Load 0 6, Load 1 6, Update 1, Update 0, Load 0 6, Update 0, Load 1 7, Update 1]
        (initial_config (\<lambda>b. State 0 False)))))
   \<and> table (run_schedule [Load 0 6, Load 1 6, Update 1, Update 0, Load 0 6, Update 0, Load 1 7, Update 1]
        (initial_config (\<lambda>b. State 0 False))) 6 = State 0 True"
proof -
  let ?c = "run_schedule [Load 0 6, Load 1 6, Update 1, Update 0, Load 0 6, Update 0, Load 1 7, Update 1]
      (initial_config (\<lambda>b. State 0 False))"
  have s: "segments ?c = [(1, 6), (1, 7)]"
    by (simp add: run_schedule_def initial_config_def hash_table_entry_def try_output_def
        update_def outputted_def)
  from one_segment_per_unitig[of "[Load 0 6, Load 1 6, Update 1, Update 0, Load 0 6, Update 0, Load 1 7, Update 1]"
      "\<lambda>b. State 0 False"]
  have "distinct (map snd (segments ?c))" and "table ?c 6 = outputted (State 0 False)"
    unfolding s by simp_all
  with s show ?thesis by (simp add: outputted_def)
qed

section \<open>The path record\<close>

lemma search_first_link_from_left:
  assumes "\<forall>t. t_id \<le> t \<and> t < T \<longrightarrow> second_unitig st t \<noteq> None \<longrightarrow> first_unitig st t \<noteq> None"
  shows "fst (search_first_link_from T t_id left st) \<noteq> None
           \<longleftrightarrow> left \<noteq> None \<or> (\<exists>t. t_id \<le> t \<and> t < T \<and> first_unitig st t \<noteq> None)"
  using assms
proof (induction T t_id left st rule: search_first_link_from.induct)
  case (1 thread_count t_id left_unitig st)
  show ?case
  proof (cases "t_id < thread_count")
    case False
    then show ?thesis by (subst search_first_link_from.simps) auto
  next
    case True
    have later: "\<forall>t. t_id + 1 \<le> t \<and> t < thread_count \<longrightarrow>
                   second_unitig st t \<noteq> None \<longrightarrow> first_unitig st t \<noteq> None"
      using "1.prems" by auto
    have here: "second_unitig st t_id \<noteq> None \<longrightarrow> first_unitig st t_id \<noteq> None"
      using "1.prems" True by auto
    have split: "\<And>Q. (\<exists>t. t_id \<le> t \<and> t < thread_count \<and> Q t)
                   \<longleftrightarrow> Q t_id \<or> (\<exists>t. t_id + 1 \<le> t \<and> t < thread_count \<and> Q t)"
    proof -
      fix Q :: "nat \<Rightarrow> bool"
      have "\<And>t. t_id \<le> t \<longleftrightarrow> t = t_id \<or> t_id + 1 \<le> t" by auto
      with True show "(\<exists>t. t_id \<le> t \<and> t < thread_count \<and> Q t)
                   \<longleftrightarrow> Q t_id \<or> (\<exists>t. t_id + 1 \<le> t \<and> t < thread_count \<and> Q t)"
        by metis
    qed
    note ex = split[of "\<lambda>t. first_unitig st t \<noteq> None"]
    show ?thesis
    proof (cases "first_unitig st t_id")
      case None
      with here have s: "second_unitig st t_id = None" by auto
      have eq: "search_first_link_from thread_count t_id left_unitig st
                  = search_first_link_from thread_count (t_id + 1) left_unitig st"
        using True None s by (subst search_first_link_from.simps) simp
      from "1.IH"(1)[OF True None s later] None show ?thesis
        unfolding eq ex by simp
    next
      case (Some f)
      then have here_first: "first_unitig st t_id \<noteq> None" by simp
      show ?thesis
      proof (cases left_unitig)
        case (Some l)
        with True \<open>first_unitig st t_id = Some f\<close> show ?thesis
          by (subst search_first_link_from.simps) simp
      next
        case None
        show ?thesis
        proof (cases "second_unitig st t_id")
          case (Some s)
          have "search_first_link_from thread_count t_id left_unitig st = (Some f, Some s)"
            using True None Some \<open>first_unitig st t_id = Some f\<close>
            by (subst search_first_link_from.simps) simp
          with here_first show ?thesis unfolding ex by simp
        next
          case None': None
          have eq: "search_first_link_from thread_count t_id left_unitig st
                  = search_first_link_from thread_count (t_id + 1) (Some f) st"
            using True None None' \<open>first_unitig st t_id = Some f\<close>
            by (subst search_first_link_from.simps) simp
          from "1.IH"(2)[OF True \<open>first_unitig st t_id = Some f\<close> None None' later] here_first
          show ?thesis unfolding eq ex by simp
        qed
      qed
    qed
  qed
qed

lemma search_first_link_left:
  assumes "\<forall>t<T. witnesses_consistent t st"
  shows "fst (search_first_link T st) \<noteq> None \<longleftrightarrow> (\<exists>t<T. first_unitig st t \<noteq> None)"
proof -
  from assms have "\<forall>t. 0 \<le> t \<and> t < T \<longrightarrow> second_unitig st t \<noteq> None \<longrightarrow> first_unitig st t \<noteq> None"
    by (simp add: witnesses_consistent_def)
  from search_first_link_from_left[OF this, of None] show ?thesis
    by (simp add: search_first_link_def)
qed

lemma digit_char_digit: "d < 10 \<Longrightarrow> digit_char d \<in> set ''0123456789''"
  unfolding digit_char_def by (rule nth_mem) simp

lemma string_of_nat_digits: "set (string_of_nat n) \<subseteq> set ''0123456789''"
proof (induction n rule: string_of_nat.induct)
  case (1 n)
  show ?case
  proof (cases "n < 10")
    case True
    with digit_char_digit[of n] show ?thesis by (subst string_of_nat.simps) simp
  next
    case False
    have "digit_char (n mod 10) \<in> set ''0123456789''" by (rule digit_char_digit) simp
    with False "1.IH" show ?thesis by (subst string_of_nat.simps) simp
  qed
qed

lemma string_of_nat_no_newline [simp]: "NEWLINE \<notin> set (string_of_nat n)"
  using string_of_nat_digits[of n] by auto

lemma string_of_int_no_newline [simp]: "NEWLINE \<notin> set (string_of_int i)"
  by (simp add: string_of_int_def)

lemma append_link_to_path_clean:
  "spools_clean T st \<Longrightarrow> spools_clean T (append_link_to_path env t l r st)"
  unfolding spools_clean_def append_link_to_path_def append_to_def
  by (auto split: option.splits)

lemma write_gfa_link_clean:
  "spools_clean T st \<Longrightarrow> spools_clean T (write_gfa_link env t l r st)"
  by (simp add: spools_clean_def)

lemma output_possible_link_clean:
  assumes c: "spools_clean T st"
  shows "spools_clean T (output_possible_link env t u st)"
proof -
  define st1 where "st1 = (if first_unitig st t = None
                 then st\<lparr>first_unitig := (first_unitig st)(t \<mapsto> u)\<rparr>
                 else if second_unitig st t = None
                 then st\<lparr>second_unitig := (second_unitig st)(t \<mapsto> u)\<rparr>
                 else st)"
  define st2 where "st2 = (case last_unitig st1 t of
                   None \<Rightarrow> st1
                 | Some prev_unitig \<Rightarrow>
                     append_link_to_path env t prev_unitig u
                       (write_gfa_link env t prev_unitig u st1))"
  from c have c1: "spools_clean T st1" by (simp add: spools_clean_def st1_def)
  have c2: "spools_clean T st2"
  proof (cases "last_unitig st1 t")
    case None
    with c1 show ?thesis by (simp add: st2_def)
  next
    case (Some prev_unitig)
    then have "st2 = append_link_to_path env t prev_unitig u (write_gfa_link env t prev_unitig u st1)"
      by (simp add: st2_def)
    with c1 show ?thesis by (simp add: append_link_to_path_clean write_gfa_link_clean)
  qed
  have "output_possible_link env t u st = st2\<lparr>last_unitig := (last_unitig st2)(t \<mapsto> u)\<rparr>"
    unfolding output_possible_link_def Let_def st2_def st1_def by (rule refl)
  with c2 show ?thesis by (simp add: spools_clean_def)
qed

lemma clean_invariant: "emission_invariant (spools_clean T)"
  unfolding emission_invariant_def
proof (intro allI impI)
  fix env t seq s e st st'
  assume c: "spools_clean T st" and r: "output_unitig_gfa env t seq s e st = Inr st'"
  from r obtain st2 u where st': "st' = output_possible_link env t u st2"
    and "path_output st2 = path_output st" "overlap_output st2 = overlap_output st"
    by (rule output_unitig_gfa_cases)
  with c have "spools_clean T st2" by (simp add: spools_clean_def)
  with st' show "spools_clean T st'" by (simp add: output_possible_link_clean)
qed

lemma reset_clean: "spools_clean T (reset_path_streams T (reset_unitigs st0))"
  by (simp add: spools_clean_def reset_path_streams_def)

lemma write_inter_thread_links_clean:
  "spools_clean T st \<Longrightarrow> spools_clean T (write_inter_thread_links env T' st)"
  unfolding write_inter_thread_links_def
  by (rule inter_thread_links_from_preserves) (simp_all add: write_gfa_link_clean append_link_to_path_clean)

lemma write_segments_and_links_preserves:
  assumes inv: "emission_invariant P"
    and stitch: "\<And>st. P st \<Longrightarrow> P (write_inter_thread_links env T st)"
    and "P st" and run: "write_segments_and_links env T seq st = Inr st'"
  shows "P st'"
proof (cases "task_size_of T (length seq) (kmer_len env) = 0")
  case True
  with run have "output_gfa_off_substring env 0 seq 0 (length seq - kmer_len env) st = Inr st'"
    by (simp add: write_segments_and_links_def split: if_splits)
  from output_gfa_off_substring_preserves[OF inv assms(3) this] show ?thesis .
next
  case False
  with run obtain st1 where r: "run_tasks env seq (worker_tasks T (length seq) (kmer_len env)) st = Inr st1"
    and st': "st' = write_inter_thread_links env T st1"
    by (auto simp: write_segments_and_links_def split: if_splits sum.splits)
  from run_tasks_preserves[OF inv assms(3) r] have "P st1" .
  with st' stitch show ?thesis by simp
qed

lemma concat_no_newline:
  "(\<And>x. x \<in> set xs \<Longrightarrow> NEWLINE \<notin> set x) \<Longrightarrow> NEWLINE \<notin> set (concat xs)"
  by auto

lemma spool_contents_clean:
  assumes "spools_clean T st"
  shows "NEWLINE \<notin> set (spool_contents (path_output st) T)"
    and "NEWLINE \<notin> set (spool_contents (overlap_output st) T)"
  using assms unfolding spools_clean_def spool_contents_def
  by (auto split: option.splits)

lemma spools_clean_usable: "spools_clean T st \<Longrightarrow> spools_usable T st"
  by (auto simp: spools_clean_def spools_usable_def list_all_iff)

text \<open>
  Claim C8. A sequence shorter than \<open>k\<close> is only counted: nothing is written for it. For
  a sequence of length at least \<open>k\<close>, in the state \<open>st\<close> the workers and the stitcher
  leave (after the witnesses and the temporary files have been reset),
  \<^verbatim>\<open>write_gfa_path\<close> returns without error and ends the processing of the sequence; when
  the first unitig of some thread is valid, it appends to the output file one line,
  which begins with \<open>P\<close> and a tabulator and holds no other line break than its last
  symbol; when no thread has a valid first unitig, it changes nothing.
\<close>

theorem path_record_per_sequence:
  "(length seq < kmer_len env \<longrightarrow>
      process_sequence env T seq st0 = Inr (st0\<lparr>seq_count := seq_count st0 + 1\<rparr>))
   \<and> (kmer_len env \<le> length seq
       \<and> write_segments_and_links env T seq
            (reset_path_streams T (reset_unitigs (st0\<lparr>seq_count := seq_count st0 + 1\<rparr>))) = Inr st \<longrightarrow>
       (\<exists>st'. process_sequence env T seq st0 = Inr st' \<and> write_gfa_path env T st = Inr st'
          \<and> ((\<exists>t<T. first_unitig st t \<noteq> None) \<longrightarrow>
               (\<exists>line. gfa_file st' = gfa_file st @ ''P'' @ [TAB] @ line @ [NEWLINE]
                       \<and> NEWLINE \<notin> set line))
          \<and> ((\<forall>t<T. first_unitig st t = None) \<longrightarrow> st' = st)))"
proof (intro conjI impI)
  assume "length seq < kmer_len env"
  then show "process_sequence env T seq st0 = Inr (st0\<lparr>seq_count := seq_count st0 + 1\<rparr>)"
    by (simp add: process_sequence_def Let_def)
next
  let ?st1 = "reset_path_streams T (reset_unitigs (st0\<lparr>seq_count := seq_count st0 + 1\<rparr>))"
  assume "kmer_len env \<le> length seq \<and> write_segments_and_links env T seq ?st1 = Inr st"
  then have long: "kmer_len env \<le> length seq"
    and run: "write_segments_and_links env T seq ?st1 = Inr st" by simp_all
  have proc: "process_sequence env T seq st0 = write_gfa_path env T st"
    using long run by (simp add: process_sequence_def Let_def)
  have clean: "spools_clean T st"
    by (rule write_segments_and_links_preserves[OF clean_invariant _ reset_clean run])
       (rule write_inter_thread_links_clean)
  have cons: "\<forall>t<T. witnesses_consistent t st"
  proof (intro allI impI)
    fix t
    show "witnesses_consistent t st"
      by (rule write_segments_and_links_preserves[OF consistent_invariant _ reset_consistent run])
         (simp add: write_inter_thread_links_consistent)
  qed
  note usable = spools_clean_usable[OF clean]
  note left = search_first_link_left[OF cons]
  obtain l r where sfl: "search_first_link T st = (l, r)" by (cases "search_first_link T st")
  show "\<exists>st'. process_sequence env T seq st0 = Inr st' \<and> write_gfa_path env T st = Inr st'
          \<and> ((\<exists>t<T. first_unitig st t \<noteq> None) \<longrightarrow>
               (\<exists>line. gfa_file st' = gfa_file st @ ''P'' @ [TAB] @ line @ [NEWLINE]
                       \<and> NEWLINE \<notin> set line))
          \<and> ((\<forall>t<T. first_unitig st t = None) \<longrightarrow> st' = st)"
  proof (cases l)
    case None
    with sfl left have none: "\<forall>t<T. first_unitig st t = None" by auto
    from None sfl usable have "write_gfa_path env T st = Inr st"
      by (simp add: write_gfa_path_def)
    with none proc show ?thesis by auto
  next
    case (Some left_unitig)
    define line where "line = ''P'' @ string_of_nat (seq_count st)
                      @ [TAB] @ string_of_nat (unitig_id left_unitig)
                      @ (if dir left_unitig = FWD then ''+'' else ''-'')
                      @ spool_contents (path_output st) T
                      @ [TAB]
                      @ (case r of
                           None \<Rightarrow> ''*''
                         | Some right_unitig \<Rightarrow>
                             string_of_int
                               (if start_kmer_idx right_unitig = end_kmer_idx left_unitig + 1
                                then (int (kmer_len env) - 1) mod 65536 else 0)
                             @ ''M'' @ spool_contents (overlap_output st) T)"
    have nl: "NEWLINE \<notin> set line"
      using spool_contents_clean[OF clean] by (simp add: line_def split: option.splits)
    from Some sfl usable have
      "write_gfa_path env T st = Inr (st\<lparr>gfa_file := gfa_file st @ ''P'' @ [TAB] @ line @ [NEWLINE]\<rparr>)"
      by (simp add: write_gfa_path_def line_def)
    moreover from Some sfl left have "\<exists>t<T. first_unitig st t \<noteq> None" by auto
    ultimately show ?thesis using nl proc by auto
  qed
qed

text \<open>
  The sequence \<open>ACGNTGA\<close> on one thread: two unitigs, one path line; the sequence \<open>AC\<close>
  is shorter than \<open>k = 3\<close>.
\<close>

theorem path_record_per_sequence_witness:
  "\<exists>st st'. write_segments_and_links example_env 1 ''ACGNTGA''
               (reset_path_streams 1 (reset_unitigs (example_state\<lparr>seq_count := seq_count example_state + 1\<rparr>)))
             = Inr st
     \<and> first_unitig st 0 \<noteq> None
     \<and> process_sequence example_env 1 ''ACGNTGA'' example_state = Inr st'
     \<and> (\<exists>line. gfa_file st' = gfa_file st @ ''P'' @ [TAB] @ line @ [NEWLINE] \<and> NEWLINE \<notin> set line)
     \<and> process_sequence example_env 1 ''AC'' example_state
         = Inr (example_state\<lparr>seq_count := seq_count example_state + 1\<rparr>)"
proof -
  let ?st1 = "reset_path_streams 1 (reset_unitigs (example_state\<lparr>seq_count := seq_count example_state + 1\<rparr>))"
  let ?X = "write_segments_and_links example_env 1 ''ACGNTGA'' ?st1"
  have "case ?X of Inl e \<Rightarrow> False | Inr st \<Rightarrow> first_unitig st 0 \<noteq> None"
    by code_simp
  then obtain st where r: "?X = Inr st" and f: "first_unitig st 0 \<noteq> None"
    by (cases ?X) auto
  from f have ex: "\<exists>t<1. first_unitig st t \<noteq> None" by auto
  have long: "kmer_len example_env \<le> length ''ACGNTGA''" by (simp add: example_env_def)
  have short: "length ''AC'' < kmer_len example_env" by (simp add: example_env_def)
  from path_record_per_sequence[of "''ACGNTGA''" example_env 1 example_state st] long r ex
  obtain st' where "process_sequence example_env 1 ''ACGNTGA'' example_state = Inr st'"
    "\<exists>line. gfa_file st' = gfa_file st @ ''P'' @ [TAB] @ line @ [NEWLINE] \<and> NEWLINE \<notin> set line"
    by blast
  moreover from path_record_per_sequence[of "''AC''" example_env 1 example_state] short
  have "process_sequence example_env 1 ''AC'' example_state
         = Inr (example_state\<lparr>seq_count := seq_count example_state + 1\<rparr>)"
    by blast
  ultimately show ?thesis using r f by blast
qed


section \<open>The life of the temporary files\<close>

lemma spools_clean_exist: "spools_clean T st \<Longrightarrow> spools_exist T st"
  by (auto simp: spools_clean_def spools_exist_def)

lemma write_gfa_path_files:
  assumes "write_gfa_path env T st = Inr st'"
  shows "path_output st' = path_output st" and "overlap_output st' = overlap_output st"
  using assms by (auto simp: write_gfa_path_def split: if_splits prod.splits option.splits)

lemma process_sequence_long:
  assumes "process_sequence env T seq st = Inr st'" and "kmer_len env \<le> length seq"
  shows "spools_exist T st'"
proof -
  let ?st1 = "reset_path_streams T (reset_unitigs (st\<lparr>seq_count := seq_count st + 1\<rparr>))"
  from assms obtain st2 where w: "write_segments_and_links env T seq ?st1 = Inr st2"
    and p: "write_gfa_path env T st2 = Inr st'"
    by (auto simp: process_sequence_def Let_def split: sum.splits)
  have "spools_clean T st2"
    by (rule write_segments_and_links_preserves[OF clean_invariant _ reset_clean w])
       (rule write_inter_thread_links_clean)
  then have "spools_exist T st2" by (rule spools_clean_exist)
  with write_gfa_path_files[OF p] show ?thesis by (simp add: spools_exist_def)
qed

lemma process_sequence_short:
  assumes "process_sequence env T seq st = Inr st'" and "length seq < kmer_len env"
  shows "path_output st' = path_output st" and "overlap_output st' = overlap_output st"
  using assms by (auto simp: process_sequence_def Let_def)

lemma process_sequences_exist:
  "process_sequences env T seqs st = Inr st' \<Longrightarrow>
   spools_exist T st \<or> (\<exists>seq \<in> set seqs. kmer_len env \<le> length seq) \<Longrightarrow> spools_exist T st'"
proof (induction seqs arbitrary: st)
  case Nil
  then show ?case by simp
next
  case (Cons seq seqs)
  from Cons.prems(1) obtain st1 where a: "process_sequence env T seq st = Inr st1"
    and b: "process_sequences env T seqs st1 = Inr st'"
    by (auto split: sum.splits)
  show ?case
  proof (cases "kmer_len env \<le> length seq")
    case True
    from process_sequence_long[OF a True] Cons.IH[OF b] show ?thesis by blast
  next
    case False
    then have "length seq < kmer_len env" by simp
    from process_sequence_short[OF a this] have
      "spools_exist T st1 = spools_exist T st" by (simp add: spools_exist_def)
    with Cons.prems(2) False Cons.IH[OF b] show ?thesis by auto
  qed
qed

lemma flush_buffers_files:
  "path_output (flush_buffers T st) = path_output st \<and> overlap_output (flush_buffers T st) = overlap_output st"
  unfolding flush_buffers_def
  by (induction T) (simp_all add: flush_buffer_def)

lemma remove_temp_files_0: "remove_temp_files 0 st = st"
  by (simp add: remove_temp_files_def)

lemma remove_temp_files_Suc:
  "remove_temp_files (Suc T) st = remove_temp_files_of T (remove_temp_files T st)"
  by (simp add: remove_temp_files_def)

lemma remove_temp_files_path:
  "path_output (remove_temp_files T st) t = (if t < T then None else path_output st t)"
  by (induction T)
     (auto simp: remove_temp_files_0 remove_temp_files_Suc remove_temp_files_of_def)

lemma remove_temp_files_overlap:
  "overlap_output (remove_temp_files T st) t
     = (if t < T \<and> path_output st t \<noteq> None then None else overlap_output st t)"
  by (induction T)
     (auto simp: remove_temp_files_0 remove_temp_files_Suc remove_temp_files_of_def
           remove_temp_files_path less_Suc_eq)

text \<open>
  Claim C9, as the code has it. The temporary files are not removed at the end of a
  sequence: after the processing of any sequence of length at least \<open>k\<close>, its path
  record written, the path file and the overlap file of every thread below \<open>T\<close> still
  exist (the next such sequence empties them). They are removed once, at the end of the
  run, after the last path record: when the run is over no path file of a thread below
  \<open>T\<close> exists, and no overlap file either when some sequence had length at least \<open>k\<close>.
\<close>

theorem spools_removed_at_end_of_run:
  "(process_sequence env T seq st = Inr st' \<and> kmer_len env \<le> length seq \<longrightarrow>
      (\<forall>t<T. path_output st' t \<noteq> None \<and> overlap_output st' t \<noteq> None))
   \<and> (output_maximal_unitigs_gfa env T seqs st0 = Inr st_end \<longrightarrow>
        (\<forall>t<T. path_output st_end t = None)
        \<and> ((\<exists>seq \<in> set seqs. kmer_len env \<le> length seq) \<longrightarrow>
             (\<forall>t<T. overlap_output st_end t = None)))"
proof (intro conjI impI)
  assume "process_sequence env T seq st = Inr st' \<and> kmer_len env \<le> length seq"
  then have "spools_exist T st'" using process_sequence_long by blast
  then show "\<forall>t<T. path_output st' t \<noteq> None \<and> overlap_output st' t \<noteq> None"
    by (simp add: spools_exist_def)
next
  assume run: "output_maximal_unitigs_gfa env T seqs st0 = Inr st_end"
  then obtain st1 where st_end: "st_end = remove_temp_files T (flush_buffers T st1)"
    by (auto simp: output_maximal_unitigs_gfa_def split: sum.splits)
  then show "\<forall>t<T. path_output st_end t = None" by (simp add: remove_temp_files_path)
next
  assume run: "output_maximal_unitigs_gfa env T seqs st0 = Inr st_end"
    and long: "\<exists>seq \<in> set seqs. kmer_len env \<le> length seq"
  from run obtain st1 where
    p: "process_sequences env T seqs (st0\<lparr>gfa_file := GFA_HEADER @ [NEWLINE], seq_count := 0\<rparr>) = Inr st1"
    and st_end: "st_end = remove_temp_files T (flush_buffers T st1)"
    by (auto simp: output_maximal_unitigs_gfa_def split: sum.splits)
  from process_sequences_exist[OF p] long have "spools_exist T st1" by blast
  then have "spools_exist T (flush_buffers T st1)" by (simp add: spools_exist_def flush_buffers_files)
  then show "\<forall>t<T. overlap_output st_end t = None"
    by (simp add: st_end remove_temp_files_overlap spools_exist_def)
qed

text \<open>
  The run on \<open>ACG\<close> and \<open>ACGNTGA\<close> with one thread: the files exist after a sequence and
  are gone after the run.
\<close>

theorem spools_removed_at_end_of_run_witness:
  "\<not> isl (process_sequence example_env 1 ''ACGNTGA'' example_state)
   \<and> path_output (projr (process_sequence example_env 1 ''ACGNTGA'' example_state)) 0 \<noteq> None
   \<and> \<not> isl (output_maximal_unitigs_gfa example_env 1 [''ACG'', ''ACGNTGA''] example_state)
   \<and> path_output (projr (output_maximal_unitigs_gfa example_env 1 [''ACG'', ''ACGNTGA''] example_state)) 0 = None
   \<and> overlap_output (projr (output_maximal_unitigs_gfa example_env 1 [''ACG'', ''ACGNTGA''] example_state)) 0 = None"
proof -
  let ?X = "process_sequence example_env 1 ''ACGNTGA'' example_state"
  let ?Y = "output_maximal_unitigs_gfa example_env 1 [''ACG'', ''ACGNTGA''] example_state"
  have x: "\<not> isl ?X" by code_simp
  then have rx: "?X = Inr (projr ?X)" by (cases ?X) auto
  have y: "\<not> isl ?Y" by code_simp
  then have ry: "?Y = Inr (projr ?Y)" by (cases ?Y) auto
  have k: "kmer_len example_env \<le> length ''ACGNTGA''" by (simp add: example_env_def)
  have l: "\<exists>seq \<in> set [''ACG'', ''ACGNTGA'']. kmer_len example_env \<le> length seq"
    by (simp add: example_env_def)
  from spools_removed_at_end_of_run[of example_env 1 "''ACGNTGA''" example_state "projr ?X"
      "[''ACG'', ''ACGNTGA'']" example_state "projr ?Y"] rx ry k l
  have "path_output (projr ?X) 0 \<noteq> None" "path_output (projr ?Y) 0 = None"
    "overlap_output (projr ?Y) 0 = None"
    by auto
  with x y show ?thesis by simp
qed

text \<open>
  After the processing of the sequence \<open>ACG\<close>, whose path record is in the output file,
  the two temporary files of thread 0 exist, empty: they have not been removed at the
  end of the sequence, as C9 words it.
\<close>

theorem spools_persist_counterexample:
  "\<not> isl (process_sequence example_env 1 ''ACG'' example_state)
   \<and> gfa_file (projr (process_sequence example_env 1 ''ACG'' example_state))
       = ''P'' @ [TAB] @ ''P1'' @ [TAB] @ ''6+'' @ [TAB] @ ''*'' @ [NEWLINE]
   \<and> path_output (projr (process_sequence example_env 1 ''ACG'' example_state)) 0 = Some []
   \<and> overlap_output (projr (process_sequence example_env 1 ''ACG'' example_state)) 0 = Some []"
  by code_simp


section \<open>The walk of a maximal run\<close>

lemma same_classes_refl [simp]: "same_classes tbl tbl"
  by (simp add: same_classes_def)

lemma same_classes_trans: "same_classes a b \<Longrightarrow> same_classes b c \<Longrightarrow> same_classes a c"
  by (simp add: same_classes_def)

lemma annotate_same_classes:
  "same_classes tbl tbl' \<Longrightarrow> annotate env s j tbl' = annotate env s j tbl"
  by (simp add: annotate_def same_classes_def Let_def)

lemma try_output_same_classes:
  "same_classes tbl (fst (try_output tbl (hash_table_entry tbl b)))"
  by (simp add: same_classes_def try_output_def update_def hash_table_entry_def outputted_def)

lemma output_possible_link_more_fields [simp]:
  "Vertices (output_possible_link env t u st) = Vertices st"
  "unitig_log (output_possible_link env t u st) = unitig_log st"
  by (simp_all add: output_possible_link_def Let_def split: option.splits)

lemma write_gfa_segment_ok:
  assumes "0 < kmer_len env" and "start_idx \<le> end_idx" and "end_idx + kmer_len env \<le> length seq"
    and "d = BWD \<longrightarrow> (\<forall>j. start_idx \<le> j \<and> j < end_idx + kmer_len env \<longrightarrow> nucleotide (seq ! j))"
  shows "\<exists>st'. write_gfa_segment env t seq segment_name start_idx end_idx d st = Inr st'"
proof (cases d)
  case FWD
  have "end_idx + kmer_len env - 1 < length seq" "start_idx \<le> end_idx + kmer_len env - 1 + 1"
    using assms by auto
  from write_fwd_take[OF this] FWD show ?thesis
    by (simp add: write_gfa_segment_def Let_def)
next
  case BWD
  have "end_idx + kmer_len env \<le> length seq" "start_idx \<le> end_idx + kmer_len env"
    using assms by auto
  from write_bwd_rev[OF this] assms(4) BWD show ?thesis
    by (simp add: write_gfa_segment_def Let_def)
qed

lemma output_unitig_gfa_ok:
  assumes "0 < kmer_len env" and "idx s \<le> idx e" and "idx e + kmer_len env \<le> length seq"
    and "\<forall>j. idx s \<le> j \<and> j < idx e + kmer_len env \<longrightarrow> nucleotide (seq ! j)"
  shows "\<exists>st'. output_unitig_gfa env t seq s e st = Inr st'
           \<and> unitig_log st' = unitig_log st @ [(t, idx s, idx e)]
           \<and> same_classes (Vertices st) (Vertices st')"
proof -
  let ?b = "bucket_id env (min (canonical s) (canonical e))"
  let ?won = "try_output (Vertices st) (hash_table_entry (Vertices st) ?b)"
  let ?st1 = "st\<lparr>Vertices := fst ?won, unitig_log := unitig_log st @ [(t, idx s, idx e)]\<rparr>"
  let ?d = "if kmer s < rev_compl e then FWD else BWD"
  let ?u = "\<lparr>unitig_id = ?b, dir = ?d, start_kmer_idx = idx s, end_kmer_idx = idx e\<rparr>"
  have cl: "same_classes (Vertices st) (Vertices ?st1)" by (simp add: try_output_same_classes)
  show ?thesis
  proof (cases "snd ?won")
    case True
    from assms(4) have "?d = BWD \<longrightarrow> (\<forall>j. idx s \<le> j \<and> j < idx e + kmer_len env \<longrightarrow> nucleotide (seq ! j))"
      by simp
    from write_gfa_segment_ok[OF assms(1-3) this] obtain st2 where
      w: "write_gfa_segment env t seq ?b (idx s) (idx e) ?d ?st1 = Inr st2" by blast
    from True w have r: "output_unitig_gfa env t seq s e st = Inr (output_possible_link env t ?u st2)"
      by (simp add: output_unitig_gfa_def Let_def)
    from write_gfa_segment_fields[OF w] cl r show ?thesis by simp
  next
    case False
    then have "output_unitig_gfa env t seq s e st = Inr (output_possible_link env t ?u ?st1)"
      by (simp add: output_unitig_gfa_def Let_def)
    with cl show ?thesis by simp
  qed
qed

lemma kmer_at_roll:
  assumes "0 < kmer_len env" and "i + kmer_len env < length seq"
  shows "tl (kmer_at env seq i) @ [seq ! (i + kmer_len env)] = kmer_at env seq (i + 1)"
proof -
  let ?k = "kmer_len env"
  from assms obtain m where m: "?k = Suc m" by (cases ?k) auto
  have d: "drop i seq = seq ! i # drop (Suc i) seq"
    using assms by (simp add: Cons_nth_drop_Suc)
  have "take (Suc m) (drop (Suc i) seq) = take m (drop (Suc i) seq) @ [drop (Suc i) seq ! m]"
    by (rule take_Suc_conv_app_nth) (use assms m in simp)
  moreover have "drop (Suc i) seq ! m = seq ! (i + ?k)" using assms m by simp
  ultimately show ?thesis by (simp add: kmer_at_def m d)
qed

lemma roll_kmer_of:
  assumes "0 < kmer_len env" and "i + kmer_len env < length seq" and "same_classes tbl tbl'"
  shows "roll_to_next_kmer env (seq ! (i + kmer_len env)) tbl' (kmer_of env tbl seq i)
           = kmer_of env tbl seq (i + 1)"
  using kmer_at_roll[OF assms(1,2)] annotate_same_classes[OF assms(3)]
  by (simp add: roll_to_next_kmer_def kmer_of_def annotate_def Let_def)

lemma kmer_of_idx [simp]: "idx (kmer_of env tbl seq j) = j"
  by (simp add: kmer_of_def annotate_def Let_def)

lemma known_nucleotide:
  "symbols_known seq \<Longrightarrow> j < length seq \<Longrightarrow> seq ! j \<noteq> PLACEHOLDER_NUCLEOTIDE \<Longrightarrow> nucleotide (seq ! j)"
  by (auto simp: symbols_known_def)

lemma emit_ok:
  assumes k: "0 < kmer_len env" and sym: "symbols_known seq"
    and "idx a \<le> idx b" and "idx b + kmer_len env \<le> length seq"
    and "\<forall>j. idx a \<le> j \<and> j < idx b + kmer_len env \<longrightarrow> seq ! j \<noteq> PLACEHOLDER_NUCLEOTIDE"
    and cl: "same_classes tbl (Vertices st)"
  shows "\<exists>st'. output_unitig_gfa env t seq a b st = Inr st'
           \<and> unitig_log st' = unitig_log st @ [(t, idx a, idx b)]
           \<and> same_classes tbl (Vertices st')"
proof -
  have "\<forall>j. idx a \<le> j \<and> j < idx b + kmer_len env \<longrightarrow> nucleotide (seq ! j)"
    using assms(4,5) known_nucleotide[OF sym] by simp
  from output_unitig_gfa_ok[OF k assms(3,4) this, of t st] cl show ?thesis
    by (auto intro: same_classes_trans)
qed

lemma walk_rest_guard_false:
  "\<not> (on \<or> i \<le> right_end) \<Longrightarrow>
   walk_rest env t seq right_end i on us cur nxt st = Inr (i + kmer_len env, st)"
  by (subst walk_rest.simps) simp

lemma walk_rest_returned:
  "on \<or> i \<le> right_end \<Longrightarrow> walk_body env t seq i on us cur nxt st = Inr (Returned r st') \<Longrightarrow>
   walk_rest env t seq right_end i on us cur nxt st = Inr (r, st')"
  by (subst walk_rest.simps) simp

lemma walk_rest_continue:
  "on \<or> i \<le> right_end \<Longrightarrow>
   walk_body env t seq i on us cur nxt st = Inr (Continue on' us' cur' nxt' st') \<Longrightarrow>
   walk_rest env t seq right_end i on us cur nxt st
     = walk_rest env t seq right_end (i + 1) on' us' cur' nxt' st'"
  by (subst walk_rest.simps) simp

lemma walk_rest_spec:
  "0 < kmer_len env \<Longrightarrow> symbols_known seq \<Longrightarrow> predicates_agree env \<Longrightarrow>
   loop_ready env tbl seq i on us cur nxt st \<Longrightarrow>
   \<exists>r st' new. walk_rest env t seq right_end i on us cur nxt st = Inr (r, st')
      \<and> unitig_log st' = unitig_log st @ map (\<lambda>(s, e). (t, s, e)) new
      \<and> same_classes tbl (Vertices st')
      \<and> walk_post env tbl seq right_end i on (idx us) r new"
proof (induction env t seq right_end i on us cur nxt st rule: walk_rest.induct)
  case (1 env t seq right_end i on us cur nxt st)
  note k = "1.prems"(1) and sym = "1.prems"(2) and agree = "1.prems"(3) and ready = "1.prems"(4)
  let ?k = "kmer_len env"
  let ?N = PLACEHOLDER_NUCLEOTIDE
  from ready have ipos: "0 < i" and inb: "i + ?k \<le> length seq"
    and cur: "cur = kmer_of env tbl seq (i - 1)" and nxt: "nxt = kmer_of env tbl seq i"
    and cl: "same_classes tbl (Vertices st)"
    and valid_i: "\<forall>j. i \<le> j \<and> j < i + ?k \<longrightarrow> seq ! j \<noteq> ?N"
    and pend: "on \<Longrightarrow> idx us < i" "on \<Longrightarrow> \<forall>j. idx us \<le> j \<and> j < i \<longrightarrow> seq ! j \<noteq> ?N"
      "on \<Longrightarrow> \<forall>j. idx us \<le> j \<and> j < i \<longrightarrow> \<not> unitig_end env tbl seq j"
    by (simp_all add: loop_ready_def)
  show ?case
  proof (cases "on \<or> i \<le> right_end")
    case False
    have "walk_post env tbl seq right_end i on (idx us) (i + ?k) []"
      using False inb valid_i by (simp add: walk_post_def)
    with walk_rest_guard_false[OF False] cl show ?thesis
      by (intro exI[of _ "i + ?k"] exI[of _ st] exI[of _ "[]"]) simp
  next
    case True
    define S where "S = starts_at env tbl seq i"
    have S: "is_unipath_start env (vertex_class nxt) (kdir nxt) (vertex_class cur) (kdir cur) = S"
      by (simp add: S_def starts_at_def cur nxt)
    have noS: "\<not> S" if on
    proof
      assume S
      then have "is_unipath_end env (vertex_class cur) (kdir cur) (vertex_class nxt) (kdir nxt)"
        using agree S unfolding predicates_agree_def by blast
      then have "ends_at env tbl seq (i - 1)" using ipos by (simp add: ends_at_def cur nxt)
      then have "unitig_end env tbl seq (i - 1)" by (simp add: unitig_end_def)
      moreover from pend(1)[OF that] have "idx us \<le> i - 1 \<and> i - 1 < i" using ipos by simp
      ultimately show False using pend(3)[OF that] by blast
    qed
    define on' where "on' = (S \<or> on)"
    define us' where "us' = (if S then nxt else us)"
    have s'_le: "idx us' \<le> i" if on'
      using that pend(1) by (auto simp: us'_def on'_def nxt)
    have s'_valid: "\<forall>j. idx us' \<le> j \<and> j < i + ?k \<longrightarrow> seq ! j \<noteq> ?N" if on'
    proof (intro allI impI)
      fix j assume j: "idx us' \<le> j \<and> j < i + ?k"
      show "seq ! j \<noteq> ?N"
      proof (cases "i \<le> j")
        case True
        with j valid_i show ?thesis by simp
      next
        case False
        with j have "\<not> S" by (auto simp: us'_def nxt)
        with that have on and "us' = us" by (simp_all add: on'_def us'_def)
        with pend(2) j False show ?thesis by simp
      qed
    qed
    have s'_noend: "\<forall>j. idx us' \<le> j \<and> j < i \<longrightarrow> \<not> unitig_end env tbl seq j" if on'
    proof (intro allI impI)
      fix j assume j: "idx us' \<le> j \<and> j < i"
      then have "\<not> S" by (auto simp: us'_def nxt)
      with that have on and "us' = us" by (simp_all add: on'_def us'_def)
      with pend(3) j show "\<not> unitig_end env tbl seq j" by simp
    qed
    have origin: "on \<and> idx us' = idx us \<or> i \<le> idx us' \<and> idx us' \<le> right_end \<and> starts_at env tbl seq (idx us')"
      if on'
    proof (cases S)
      case True
      with noS have "\<not> on" by blast
      with \<open>on \<or> i \<le> right_end\<close> have "i \<le> right_end" by simp
      with True show ?thesis by (simp add: us'_def nxt S_def)
    next
      case False
      with that show ?thesis by (simp add: on'_def us'_def)
    qed
    have pending_same: "idx us' = idx us" if on
      using noS[OF that] by (simp add: us'_def)
    have start_here: "on' \<and> idx us' = i" if S
      using that by (simp add: on'_def us'_def nxt)
    show ?thesis
    proof (cases "no_right_neighbor env seq i")
      case NR: True
      then have rkind: "i + ?k = length seq \<or> seq ! (i + ?k) = ?N"
        by (simp add: no_right_neighbor_def)
      have ue: "unitig_end env tbl seq i" using NR by (simp add: unitig_end_def)
      show ?thesis
      proof (cases on')
        case False
        then have body: "walk_body env t seq i on us cur nxt st = Inr (Returned (i + ?k) st)"
          using inb NR S by (simp add: walk_body_def Let_def on'_def)
        from False have "\<not> on" "\<not> S" by (simp_all add: on'_def)
        have "walk_post env tbl seq right_end i on (idx us) (i + ?k) []"
          unfolding walk_post_def
        proof (intro conjI)
          show "\<forall>s. i \<le> s \<and> s \<le> right_end \<and> s + ?k \<le> i + ?k \<and> starts_at env tbl seq s
                  \<longrightarrow> (\<exists>e. (s, e) \<in> set [])"
            using \<open>\<not> S\<close> by (auto simp: S_def le_antisym)
        qed (use inb valid_i rkind \<open>\<not> on\<close> in auto)
        with walk_rest_returned[OF True body] cl show ?thesis
          by (intro exI[of _ "i + ?k"] exI[of _ st] exI[of _ "[]"]) simp
      next
        case on'_true: True
        have nxt_i: "idx nxt = i" by (simp add: nxt)
        from emit_ok[OF k sym, of us' nxt tbl st t] s'_le[OF on'_true] s'_valid[OF on'_true] inb cl nxt_i
        obtain st' where out: "output_unitig_gfa env t seq us' nxt st = Inr st'"
          and log: "unitig_log st' = unitig_log st @ [(t, idx us', i)]"
          and cl': "same_classes tbl (Vertices st')"
          by auto
        have body: "walk_body env t seq i on us cur nxt st = Inr (Returned (i + ?k) st')"
          using inb NR S on'_true out by (simp add: walk_body_def Let_def on'_def us'_def)
        have "walk_post env tbl seq right_end i on (idx us) (i + ?k) [(idx us', i)]"
          unfolding walk_post_def
        proof (intro conjI)
          show "\<forall>(s, e) \<in> set [(idx us', i)]. s \<le> e \<and> e + ?k \<le> i + ?k \<and> unitig_end env tbl seq e
            \<and> (\<forall>j. s \<le> j \<and> j < e \<longrightarrow> \<not> unitig_end env tbl seq j)
            \<and> (on \<and> s = idx us \<or> i \<le> s \<and> s \<le> right_end \<and> starts_at env tbl seq s)"
            using s'_le[OF on'_true] ue s'_noend[OF on'_true] origin[OF on'_true] by simp
          show "on \<longrightarrow> (\<exists>e. (idx us, e) \<in> set [(idx us', i)])"
            using pending_same by auto
          show "\<forall>s. i \<le> s \<and> s \<le> right_end \<and> s + ?k \<le> i + ?k \<and> starts_at env tbl seq s
                  \<longrightarrow> (\<exists>e. (s, e) \<in> set [(idx us', i)])"
            using start_here by (auto simp: S_def le_antisym)
        qed (use inb valid_i rkind in auto)
        with walk_rest_returned[OF True body] cl' log show ?thesis
          by (intro exI[of _ "i + ?k"] exI[of _ st'] exI[of _ "[(idx us', i)]"]) simp
      qed
    next
      case notNR: False
      then have more: "i + ?k < length seq" and valid_next: "seq ! (i + ?k) \<noteq> ?N"
        using inb by (auto simp: no_right_neighbor_def)
      define nxt' where "nxt' = roll_to_next_kmer env (seq ! (i + ?k)) (Vertices st) nxt"
      have nxt': "nxt' = kmer_of env tbl seq (i + 1)"
        unfolding nxt'_def nxt by (rule roll_kmer_of[OF k more cl])
      define E where "E = ends_at env tbl seq i"
      have E: "is_unipath_end env (vertex_class nxt) (kdir nxt) (vertex_class nxt') (kdir nxt') = E"
        by (simp add: E_def ends_at_def nxt nxt')
      have ue: "unitig_end env tbl seq i = E" using notNR by (simp add: unitig_end_def E_def)
      have valid_i1: "\<forall>j. i + 1 \<le> j \<and> j < i + 1 + ?k \<longrightarrow> seq ! j \<noteq> ?N"
      proof (intro allI impI)
        fix j assume j: "i + 1 \<le> j \<and> j < i + 1 + ?k"
        show "seq ! j \<noteq> ?N"
        proof (cases "j = i + ?k")
          case True with valid_next show ?thesis by simp
        next
          case False with j valid_i show ?thesis by simp
        qed
      qed
      show ?thesis
      proof (cases "on' \<and> E")
        case emit: True
        have nxt_i: "idx nxt = i" by (simp add: nxt)
        from emit have on'_true: on' by simp
        from emit_ok[OF k sym, of us' nxt tbl st t] s'_le[OF on'_true] s'_valid[OF on'_true] inb cl nxt_i
        obtain st1 where out: "output_unitig_gfa env t seq us' nxt st = Inr st1"
          and log1: "unitig_log st1 = unitig_log st @ [(t, idx us', i)]"
          and cl1: "same_classes tbl (Vertices st1)"
          by auto
        have body: "walk_body env t seq i on us cur nxt st = Inr (Continue False us' nxt nxt' st1)"
          using inb notNR S E emit out
          by (simp add: walk_body_def Let_def on'_def us'_def nxt'_def)
        have ready1: "loop_ready env tbl seq (i + 1) False us' nxt nxt' st1"
          using more nxt nxt' cl1 valid_i1 by (simp add: loop_ready_def)
        from "1.IH"[OF True body refl k sym agree ready1] obtain r st' new1 where
          rest: "walk_rest env t seq right_end (i + 1) False us' nxt nxt' st1 = Inr (r, st')"
          and log: "unitig_log st' = unitig_log st1 @ map (\<lambda>(s, e). (t, s, e)) new1"
          and cl': "same_classes tbl (Vertices st')"
          and post1: "walk_post env tbl seq right_end (i + 1) False (idx us') r new1"
          by blast
        from post1 have p1: "i + 1 + ?k \<le> r" "r \<le> length seq"
          "\<forall>j. i + 1 \<le> j \<and> j < r \<longrightarrow> seq ! j \<noteq> ?N"
          "r = length seq \<or> seq ! r = ?N \<or> right_end + ?k < r"
          and p1e: "\<forall>(s, e) \<in> set new1. s \<le> e \<and> e + ?k \<le> r \<and> unitig_end env tbl seq e
            \<and> (\<forall>j. s \<le> j \<and> j < e \<longrightarrow> \<not> unitig_end env tbl seq j)
            \<and> (i + 1 \<le> s \<and> s \<le> right_end \<and> starts_at env tbl seq s)"
          and p1c: "\<forall>s. i + 1 \<le> s \<and> s \<le> right_end \<and> s + ?k \<le> r \<and> starts_at env tbl seq s
                  \<longrightarrow> (\<exists>e. (s, e) \<in> set new1)"
          by (simp_all add: walk_post_def)
        have "walk_post env tbl seq right_end i on (idx us) r ((idx us', i) # new1)"
          unfolding walk_post_def
        proof (intro conjI)
          show "i + ?k \<le> r" using p1(1) by simp
          show "r \<le> length seq" by (rule p1(2))
          show "\<forall>j. i \<le> j \<and> j < r \<longrightarrow> seq ! j \<noteq> ?N"
          proof (intro allI impI)
            fix j assume j: "i \<le> j \<and> j < r"
            show "seq ! j \<noteq> ?N"
            proof (cases "j = i")
              case True with valid_i k show ?thesis by simp
            next
              case False with j p1(3) show ?thesis by simp
            qed
          qed
          show "r = length seq \<or> seq ! r = ?N \<or> right_end + ?k < r" by (rule p1(4))
          show "\<forall>(s, e) \<in> set ((idx us', i) # new1). s \<le> e \<and> e + ?k \<le> r \<and> unitig_end env tbl seq e
            \<and> (\<forall>j. s \<le> j \<and> j < e \<longrightarrow> \<not> unitig_end env tbl seq j)
            \<and> (on \<and> s = idx us \<or> i \<le> s \<and> s \<le> right_end \<and> starts_at env tbl seq s)"
          proof
            fix x assume x: "x \<in> set ((idx us', i) # new1)"
            show "case x of (s, e) \<Rightarrow> s \<le> e \<and> e + ?k \<le> r \<and> unitig_end env tbl seq e
              \<and> (\<forall>j. s \<le> j \<and> j < e \<longrightarrow> \<not> unitig_end env tbl seq j)
              \<and> (on \<and> s = idx us \<or> i \<le> s \<and> s \<le> right_end \<and> starts_at env tbl seq s)"
            proof (cases "x = (idx us', i)")
              case True
              with s'_le[OF on'_true] ue emit s'_noend[OF on'_true] origin[OF on'_true] p1(1)
              show ?thesis by simp
            next
              case False
              with x have "x \<in> set new1" by simp
              with p1e show ?thesis by fastforce
            qed
          qed
          show "on \<longrightarrow> (\<exists>e. (idx us, e) \<in> set ((idx us', i) # new1))"
            using pending_same by auto
          show "\<forall>s. i \<le> s \<and> s \<le> right_end \<and> s + ?k \<le> r \<and> starts_at env tbl seq s
                  \<longrightarrow> (\<exists>e. (s, e) \<in> set ((idx us', i) # new1))"
          proof (intro allI impI)
            fix s assume s: "i \<le> s \<and> s \<le> right_end \<and> s + ?k \<le> r \<and> starts_at env tbl seq s"
            show "\<exists>e. (s, e) \<in> set ((idx us', i) # new1)"
            proof (cases "s = i")
              case True
              with s have S by (simp add: S_def)
              from start_here[OF this] True show ?thesis by auto
            next
              case False
              with s p1c have "\<exists>e. (s, e) \<in> set new1" by simp
              then show ?thesis by auto
            qed
          qed
        qed
        moreover have "walk_rest env t seq right_end i on us cur nxt st = Inr (r, st')"
          using walk_rest_continue[OF True body] rest by simp
        moreover have "unitig_log st' = unitig_log st @ map (\<lambda>(s, e). (t, s, e)) ((idx us', i) # new1)"
          using log log1 by simp
        ultimately show ?thesis using cl' by blast
      next
        case noemit: False
        have body: "walk_body env t seq i on us cur nxt st = Inr (Continue on' us' nxt nxt' st)"
          using inb notNR S E noemit
          by (auto simp: walk_body_def Let_def on'_def us'_def nxt'_def)
        have noE: "\<not> unitig_end env tbl seq i" if on'
          using that noemit ue by simp
        have ready1: "loop_ready env tbl seq (i + 1) on' us' nxt nxt' st"
          unfolding loop_ready_def
        proof (intro conjI impI)
          assume o: on'
          show "idx us' < i + 1" using s'_le[OF o] by simp
          show "\<forall>j. idx us' \<le> j \<and> j < i + 1 \<longrightarrow> seq ! j \<noteq> ?N"
            using s'_valid[OF o] k by simp
          show "\<forall>j. idx us' \<le> j \<and> j < i + 1 \<longrightarrow> \<not> unitig_end env tbl seq j"
          proof (intro allI impI)
            fix j assume j: "idx us' \<le> j \<and> j < i + 1"
            show "\<not> unitig_end env tbl seq j"
            proof (cases "j = i")
              case True with noE[OF o] show ?thesis by simp
            next
              case False with j s'_noend[OF o] show ?thesis by simp
            qed
          qed
        qed (use more nxt nxt' cl valid_i1 in simp_all)
        from "1.IH"[OF True body refl k sym agree ready1] obtain r st' new where
          rest: "walk_rest env t seq right_end (i + 1) on' us' nxt nxt' st = Inr (r, st')"
          and log: "unitig_log st' = unitig_log st @ map (\<lambda>(s, e). (t, s, e)) new"
          and cl': "same_classes tbl (Vertices st')"
          and post1: "walk_post env tbl seq right_end (i + 1) on' (idx us') r new"
          by blast
        from post1 have p1: "i + 1 + ?k \<le> r" "r \<le> length seq"
          "\<forall>j. i + 1 \<le> j \<and> j < r \<longrightarrow> seq ! j \<noteq> ?N"
          "r = length seq \<or> seq ! r = ?N \<or> right_end + ?k < r"
          and p1e: "\<forall>(s, e) \<in> set new. s \<le> e \<and> e + ?k \<le> r \<and> unitig_end env tbl seq e
            \<and> (\<forall>j. s \<le> j \<and> j < e \<longrightarrow> \<not> unitig_end env tbl seq j)
            \<and> (on' \<and> s = idx us' \<or> i + 1 \<le> s \<and> s \<le> right_end \<and> starts_at env tbl seq s)"
          and p1p: "on' \<longrightarrow> (\<exists>e. (idx us', e) \<in> set new)"
          and p1c: "\<forall>s. i + 1 \<le> s \<and> s \<le> right_end \<and> s + ?k \<le> r \<and> starts_at env tbl seq s
                  \<longrightarrow> (\<exists>e. (s, e) \<in> set new)"
          by (simp_all add: walk_post_def)
        have "walk_post env tbl seq right_end i on (idx us) r new"
          unfolding walk_post_def
        proof (intro conjI)
          show "i + ?k \<le> r" using p1(1) by simp
          show "r \<le> length seq" by (rule p1(2))
          show "\<forall>j. i \<le> j \<and> j < r \<longrightarrow> seq ! j \<noteq> ?N"
          proof (intro allI impI)
            fix j assume j: "i \<le> j \<and> j < r"
            show "seq ! j \<noteq> ?N"
            proof (cases "j = i")
              case True with valid_i k show ?thesis by simp
            next
              case False with j p1(3) show ?thesis by simp
            qed
          qed
          show "r = length seq \<or> seq ! r = ?N \<or> right_end + ?k < r" by (rule p1(4))
          show "\<forall>(s, e) \<in> set new. s \<le> e \<and> e + ?k \<le> r \<and> unitig_end env tbl seq e
            \<and> (\<forall>j. s \<le> j \<and> j < e \<longrightarrow> \<not> unitig_end env tbl seq j)
            \<and> (on \<and> s = idx us \<or> i \<le> s \<and> s \<le> right_end \<and> starts_at env tbl seq s)"
          proof
            fix x assume x: "x \<in> set new"
            obtain s e where xe: "x = (s, e)" by (cases x)
            from p1e x xe have a: "s \<le> e \<and> e + ?k \<le> r \<and> unitig_end env tbl seq e
              \<and> (\<forall>j. s \<le> j \<and> j < e \<longrightarrow> \<not> unitig_end env tbl seq j)"
              and b: "on' \<and> s = idx us' \<or> i + 1 \<le> s \<and> s \<le> right_end \<and> starts_at env tbl seq s"
              by fastforce+
            from b have "on \<and> s = idx us \<or> i \<le> s \<and> s \<le> right_end \<and> starts_at env tbl seq s"
            proof
              assume "on' \<and> s = idx us'"
              with origin show ?thesis by auto
            next
              assume "i + 1 \<le> s \<and> s \<le> right_end \<and> starts_at env tbl seq s"
              then show ?thesis by simp
            qed
            with a xe show "case x of (s, e) \<Rightarrow> s \<le> e \<and> e + ?k \<le> r \<and> unitig_end env tbl seq e
              \<and> (\<forall>j. s \<le> j \<and> j < e \<longrightarrow> \<not> unitig_end env tbl seq j)
              \<and> (on \<and> s = idx us \<or> i \<le> s \<and> s \<le> right_end \<and> starts_at env tbl seq s)"
              by simp
          qed
          show "on \<longrightarrow> (\<exists>e. (idx us, e) \<in> set new)"
            using p1p pending_same by (auto simp: on'_def)
          show "\<forall>s. i \<le> s \<and> s \<le> right_end \<and> s + ?k \<le> r \<and> starts_at env tbl seq s
                  \<longrightarrow> (\<exists>e. (s, e) \<in> set new)"
          proof (intro allI impI)
            fix s assume s: "i \<le> s \<and> s \<le> right_end \<and> s + ?k \<le> r \<and> starts_at env tbl seq s"
            show "\<exists>e. (s, e) \<in> set new"
            proof (cases "s = i")
              case True
              with s have S by (simp add: S_def)
              from start_here[OF this] p1p True show ?thesis by auto
            next
              case False
              with s p1c show ?thesis by simp
            qed
          qed
        qed
        moreover have "walk_rest env t seq right_end i on us cur nxt st = Inr (r, st')"
          using walk_rest_continue[OF True body] rest by simp
        ultimately show ?thesis using cl' log by blast
      qed
    qed
  qed
qed

lemma valid_kmer_atD:
  assumes "valid_kmer_at env seq i"
  shows "i + kmer_len env \<le> length seq"
    and "\<forall>j. i \<le> j \<and> j < i + kmer_len env \<longrightarrow> seq ! j \<noteq> PLACEHOLDER_NUCLEOTIDE"
proof -
  from assms show inb: "i + kmer_len env \<le> length seq" by (simp add: valid_kmer_at_def)
  show "\<forall>j. i \<le> j \<and> j < i + kmer_len env \<longrightarrow> seq ! j \<noteq> PLACEHOLDER_NUCLEOTIDE"
  proof (intro allI impI)
    fix j assume j: "i \<le> j \<and> j < i + kmer_len env"
    then obtain m where m: "j = i + m" "m < kmer_len env" by (metis le_Suc_ex nat_add_left_cancel_less)
    with inb have "take (kmer_len env) (drop i seq) ! m = seq ! j" by simp
    moreover have "m < length (take (kmer_len env) (drop i seq))" using m inb by simp
    ultimately have "seq ! j \<in> set (kmer_at env seq i)"
      unfolding kmer_at_def by (metis nth_mem)
    with assms show "seq ! j \<noteq> PLACEHOLDER_NUCLEOTIDE" by (auto simp: valid_kmer_at_def)
  qed
qed

text \<open>
  Claim C3. Let the two predicates agree, the sequence hold nucleotides and placeholders
  only, and the walker be called at a valid k-mer \<open>start_idx \<le> right_end\<close>. Then the
  walker returns; the value \<open>r\<close> it returns is at most the length of the sequence, with no
  placeholder from \<open>start_idx\<close> up to \<open>r\<close>; and either \<open>r\<close> is the end of the sequence or
  the index of a placeholder, the end (not included) of the maximal run, or the loop has
  stopped on its condition, beyond the right end of the shard (\<open>right_end + k < r\<close>). The
  unitigs it has emitted, all for this thread, are those that start in the shard, at an
  index from \<open>start_idx\<close> to \<open>right_end\<close>: each ends at the first end of a unitig at or
  after its start, be it beyond \<open>right_end\<close>, and every start of a unitig in the shard
  among the k-mers before \<open>r\<close> has its unitig emitted, so that none is left pending.
\<close>

theorem walker_overshoots:
  assumes k: "0 < kmer_len env" and sym: "symbols_known seq" and agree: "predicates_agree env"
    and valid: "valid_kmer_at env seq start_idx" and inside: "start_idx \<le> right_end"
  shows "\<exists>r st' new. output_maximal_unitigs_gfa_walk env t seq right_end start_idx st = Inr (r, st')
      \<and> unitig_log st' = unitig_log st @ map (\<lambda>(s, e). (t, s, e)) new
      \<and> start_idx + kmer_len env \<le> r \<and> r \<le> length seq
      \<and> (\<forall>j. start_idx \<le> j \<and> j < r \<longrightarrow> seq ! j \<noteq> PLACEHOLDER_NUCLEOTIDE)
      \<and> (r = length seq \<or> seq ! r = PLACEHOLDER_NUCLEOTIDE \<or> right_end + kmer_len env < r)
      \<and> (\<forall>(s, e) \<in> set new. start_idx \<le> s \<and> s \<le> right_end \<and> s \<le> e \<and> e + kmer_len env \<le> r
            \<and> unitig_start env (Vertices st) seq s \<and> unitig_end env (Vertices st) seq e
            \<and> (\<forall>j. s \<le> j \<and> j < e \<longrightarrow> \<not> unitig_end env (Vertices st) seq j))
      \<and> (\<forall>s. start_idx \<le> s \<and> s \<le> right_end \<and> s + kmer_len env \<le> r
              \<and> unitig_start env (Vertices st) seq s \<longrightarrow> (\<exists>e. (s, e) \<in> set new))"
proof -
  let ?k = "kmer_len env" and ?N = PLACEHOLDER_NUCLEOTIDE
  let ?tbl = "Vertices st"
  let ?i = start_idx
  define cur where "cur = kmer_of env ?tbl seq ?i"
  have cur_def': "annotate env (kmer_at env seq ?i) ?i ?tbl = cur" by (simp add: cur_def kmer_of_def)
  note inb = valid_kmer_atD(1)[OF valid] and valid_i = valid_kmer_atD(2)[OF valid]
  have notlt: "\<not> length seq < ?i + ?k" using inb by simp
  define prev where "prev = annotate env (kmer_at env seq (?i - 1)) ?i ?tbl"
  have prev': "annotate env (kmer_at env seq (?i - Suc 0)) ?i ?tbl = prev" by (simp add: prev_def)
  have S: "is_unipath_start env (vertex_class cur) (kdir cur) (vertex_class prev) (kdir prev)
             = starts_at env ?tbl seq ?i"
    by (simp add: starts_at_def cur_def prev_def kmer_of_def annotate_def Let_def)
  have cur_i: "idx cur = ?i" by (simp add: cur_def)
  have emit_here: "\<exists>st'. output_unitig_gfa env t seq cur cur st = Inr st'
           \<and> unitig_log st' = unitig_log st @ [(t, ?i, ?i)] \<and> same_classes ?tbl (Vertices st')"
    using emit_ok[OF k sym, of cur cur ?tbl st t] inb valid_i cur_i by simp
  show ?thesis
  proof (cases "no_right_neighbor env seq ?i")
    case NR: True
    then have rkind: "?i + ?k = length seq \<or> seq ! (?i + ?k) = ?N"
      by (simp add: no_right_neighbor_def)
    have ue: "unitig_end env ?tbl seq ?i" using NR by (simp add: unitig_end_def)
    show ?thesis
    proof (cases "unitig_start env ?tbl seq ?i")
      case True
      from emit_here obtain st' where out: "output_unitig_gfa env t seq cur cur st = Inr st'"
        and log: "unitig_log st' = unitig_log st @ [(t, ?i, ?i)]" by blast
      have "walk_first env t seq ?i st = Inr (Returned (?i + ?k) st')"
        using True NR notlt out S
        by (auto simp: walk_first_def Let_def cur_def' prev' unitig_start_def)
      then have run: "output_maximal_unitigs_gfa_walk env t seq right_end ?i st = Inr (?i + ?k, st')"
        by (simp add: output_maximal_unitigs_gfa_walk_def)
      show ?thesis
        apply (intro exI[of _ "?i + ?k"] exI[of _ st'] exI[of _ "[(?i, ?i)]"])
        using run log inb valid_i rkind inside True ue
        by (auto simp: le_antisym)
    next
      case False
      then have "walk_first env t seq ?i st = Inr (Returned (?i + ?k) st)"
        using NR notlt S
        by (auto simp: walk_first_def Let_def cur_def' prev' unitig_start_def)
      then have run: "output_maximal_unitigs_gfa_walk env t seq right_end ?i st = Inr (?i + ?k, st)"
        by (simp add: output_maximal_unitigs_gfa_walk_def)
      show ?thesis
        apply (intro exI[of _ "?i + ?k"] exI[of _ st] exI[of _ "[]"])
        using run inb valid_i rkind False
        by (auto simp: le_antisym)
    qed
  next
    case notNR: False
    then have more: "?i + ?k < length seq" and valid_next: "seq ! (?i + ?k) \<noteq> ?N"
      using inb by (auto simp: no_right_neighbor_def)
    define nxt where "nxt = roll_to_next_kmer env (seq ! (?i + ?k)) ?tbl cur"
    have nxt: "nxt = kmer_of env ?tbl seq (?i + 1)"
      unfolding nxt_def cur_def by (rule roll_kmer_of[OF k more]) simp
    define on where "on = unitig_start env ?tbl seq ?i"
    have on: "(no_left_neighbor seq ?i
                \<or> is_unipath_start env (vertex_class cur) (kdir cur) (vertex_class prev) (kdir prev)) = on"
      by (simp add: on_def unitig_start_def S)
    define us where "us = (if on then cur else default_Annotated_Kmer)"
    define E where "E = ends_at env ?tbl seq ?i"
    have E: "is_unipath_end env (vertex_class cur) (kdir cur) (vertex_class nxt) (kdir nxt) = E"
      by (simp add: E_def ends_at_def cur_def nxt)
    have ue: "unitig_end env ?tbl seq ?i = E" using notNR by (simp add: unitig_end_def E_def)
    have us_i: "on \<Longrightarrow> idx us = ?i" by (simp add: us_def cur_i)
    have valid_i1: "\<forall>j. ?i + 1 \<le> j \<and> j < ?i + 1 + ?k \<longrightarrow> seq ! j \<noteq> ?N"
    proof (intro allI impI)
      fix j assume j: "?i + 1 \<le> j \<and> j < ?i + 1 + ?k"
      show "seq ! j \<noteq> ?N"
      proof (cases "j = ?i + ?k")
        case True with valid_next show ?thesis by simp
      next
        case False with j valid_i show ?thesis by simp
      qed
    qed
    have left_valid: "\<not> no_left_neighbor seq s" if "?i < s" "\<forall>j. ?i \<le> j \<and> j < r \<longrightarrow> seq ! j \<noteq> ?N" "s < r"
      for s r
    proof -
      from that(1,3) have "start_idx \<le> s - 1 \<and> s - 1 < r" by linarith
      with that(2) have "seq ! (s - 1) \<noteq> ?N" by blast
      with that(1) show ?thesis by (simp add: no_left_neighbor_def)
    qed
    have final: ?thesis
      if run: "output_maximal_unitigs_gfa_walk env t seq right_end ?i st = Inr (r, st')"
        and log: "unitig_log st' = unitig_log st @ map (\<lambda>(s, e). (t, s, e)) new"
        and r: "?i + 1 + ?k \<le> r" "r \<le> length seq" "\<forall>j. ?i + 1 \<le> j \<and> j < r \<longrightarrow> seq ! j \<noteq> ?N"
          "r = length seq \<or> seq ! r = ?N \<or> right_end + ?k < r"
        and ent: "\<forall>(s, e) \<in> set new. s \<le> e \<and> e + ?k \<le> r \<and> unitig_end env ?tbl seq e
            \<and> (\<forall>j. s \<le> j \<and> j < e \<longrightarrow> \<not> unitig_end env ?tbl seq j)
            \<and> (on \<and> s = ?i \<or> ?i + 1 \<le> s \<and> s \<le> right_end \<and> starts_at env ?tbl seq s)"
        and com: "on \<longrightarrow> (\<exists>e. (?i, e) \<in> set new)"
          "\<forall>s. ?i + 1 \<le> s \<and> s \<le> right_end \<and> s + ?k \<le> r \<and> starts_at env ?tbl seq s
                  \<longrightarrow> (\<exists>e. (s, e) \<in> set new)"
      for r st' new
    proof -
      have allvalid: "\<forall>j. ?i \<le> j \<and> j < r \<longrightarrow> seq ! j \<noteq> ?N"
      proof (intro allI impI)
        fix j assume j: "?i \<le> j \<and> j < r"
        show "seq ! j \<noteq> ?N"
        proof (cases "j = ?i")
          case True with valid_i k show ?thesis by simp
        next
          case False with j r(3) show ?thesis by simp
        qed
      qed
      have ent': "\<forall>(s, e) \<in> set new. ?i \<le> s \<and> s \<le> right_end \<and> s \<le> e \<and> e + ?k \<le> r
            \<and> unitig_start env ?tbl seq s \<and> unitig_end env ?tbl seq e
            \<and> (\<forall>j. s \<le> j \<and> j < e \<longrightarrow> \<not> unitig_end env ?tbl seq j)"
      proof
        fix x assume x: "x \<in> set new"
        obtain s e where xe: "x = (s, e)" by (cases x)
        from ent x xe have a: "s \<le> e \<and> e + ?k \<le> r \<and> unitig_end env ?tbl seq e
            \<and> (\<forall>j. s \<le> j \<and> j < e \<longrightarrow> \<not> unitig_end env ?tbl seq j)"
          and b: "on \<and> s = ?i \<or> ?i + 1 \<le> s \<and> s \<le> right_end \<and> starts_at env ?tbl seq s"
          by fastforce+
        from b have "?i \<le> s \<and> s \<le> right_end \<and> unitig_start env ?tbl seq s"
          using inside by (auto simp: on_def unitig_start_def)
        with a xe show "case x of (s, e) \<Rightarrow> ?i \<le> s \<and> s \<le> right_end \<and> s \<le> e \<and> e + ?k \<le> r
            \<and> unitig_start env ?tbl seq s \<and> unitig_end env ?tbl seq e
            \<and> (\<forall>j. s \<le> j \<and> j < e \<longrightarrow> \<not> unitig_end env ?tbl seq j)" by simp
      qed
      have com': "\<forall>s. ?i \<le> s \<and> s \<le> right_end \<and> s + ?k \<le> r \<and> unitig_start env ?tbl seq s
                    \<longrightarrow> (\<exists>e. (s, e) \<in> set new)"
      proof (intro allI impI)
        fix s assume s: "?i \<le> s \<and> s \<le> right_end \<and> s + ?k \<le> r \<and> unitig_start env ?tbl seq s"
        show "\<exists>e. (s, e) \<in> set new"
        proof (cases "s = ?i")
          case True
          with s com(1) show ?thesis by (simp add: on_def)
        next
          case False
          with s have lt: "?i < s" and sr: "s < r" using k by simp_all
          from left_valid[OF lt allvalid sr] s have "starts_at env ?tbl seq s"
            by (simp add: unitig_start_def)
          with com(2) s lt show ?thesis by simp
        qed
      qed
      from run log r(1,2,4) allvalid ent' com' show ?thesis
        by (intro exI[of _ r] exI[of _ st'] exI[of _ new]) simp
    qed
    show ?thesis
    proof (cases "on \<and> E")
      case emit: True
      from emit_here obtain st1 where out: "output_unitig_gfa env t seq cur cur st = Inr st1"
        and log1: "unitig_log st1 = unitig_log st @ [(t, ?i, ?i)]"
        and cl1: "same_classes ?tbl (Vertices st1)" by blast
      have first: "walk_first env t seq ?i st = Inr (Continue False us cur nxt st1)"
        using notNR notlt emit out on E
        by (simp add: walk_first_def Let_def cur_def' prev' nxt_def[symmetric] us_def)
      have ready: "loop_ready env ?tbl seq (?i + 1) False us cur nxt st1"
        using more nxt cl1 valid_i1 by (simp add: loop_ready_def cur_def)
      from walk_rest_spec[OF k sym agree ready, of t right_end] obtain r st' new1 where
        rest: "walk_rest env t seq right_end (?i + 1) False us cur nxt st1 = Inr (r, st')"
        and log: "unitig_log st' = unitig_log st1 @ map (\<lambda>(s, e). (t, s, e)) new1"
        and post: "walk_post env ?tbl seq right_end (?i + 1) False (idx us) r new1"
        by blast
      from post have p: "?i + 1 + ?k \<le> r" "r \<le> length seq"
          "\<forall>j. ?i + 1 \<le> j \<and> j < r \<longrightarrow> seq ! j \<noteq> ?N"
          "r = length seq \<or> seq ! r = ?N \<or> right_end + ?k < r"
        and pe: "\<forall>(s, e) \<in> set new1. s \<le> e \<and> e + ?k \<le> r \<and> unitig_end env ?tbl seq e
            \<and> (\<forall>j. s \<le> j \<and> j < e \<longrightarrow> \<not> unitig_end env ?tbl seq j)
            \<and> (?i + 1 \<le> s \<and> s \<le> right_end \<and> starts_at env ?tbl seq s)"
        and pc: "\<forall>s. ?i + 1 \<le> s \<and> s \<le> right_end \<and> s + ?k \<le> r \<and> starts_at env ?tbl seq s
                  \<longrightarrow> (\<exists>e. (s, e) \<in> set new1)"
        by (simp_all add: walk_post_def)
      have run: "output_maximal_unitigs_gfa_walk env t seq right_end ?i st = Inr (r, st')"
        using first rest by (simp add: output_maximal_unitigs_gfa_walk_def)
      have ent: "\<forall>(s, e) \<in> set ((?i, ?i) # new1). s \<le> e \<and> e + ?k \<le> r \<and> unitig_end env ?tbl seq e
            \<and> (\<forall>j. s \<le> j \<and> j < e \<longrightarrow> \<not> unitig_end env ?tbl seq j)
            \<and> (on \<and> s = ?i \<or> ?i + 1 \<le> s \<and> s \<le> right_end \<and> starts_at env ?tbl seq s)"
      proof
        fix x assume x: "x \<in> set ((?i, ?i) # new1)"
        show "case x of (s, e) \<Rightarrow> s \<le> e \<and> e + ?k \<le> r \<and> unitig_end env ?tbl seq e
            \<and> (\<forall>j. s \<le> j \<and> j < e \<longrightarrow> \<not> unitig_end env ?tbl seq j)
            \<and> (on \<and> s = ?i \<or> ?i + 1 \<le> s \<and> s \<le> right_end \<and> starts_at env ?tbl seq s)"
        proof (cases "x = (?i, ?i)")
          case True
          with emit ue p(1) show ?thesis by auto
        next
          case False
          with x have "x \<in> set new1" by simp
          with pe show ?thesis by fastforce
        qed
      qed
      have c1: "on \<longrightarrow> (\<exists>e. (?i, e) \<in> set ((?i, ?i) # new1))" by auto
      have c2: "\<forall>s. ?i + 1 \<le> s \<and> s \<le> right_end \<and> s + ?k \<le> r \<and> starts_at env ?tbl seq s
                  \<longrightarrow> (\<exists>e. (s, e) \<in> set ((?i, ?i) # new1))"
        using pc by auto
      have log': "unitig_log st' = unitig_log st @ map (\<lambda>(s, e). (t, s, e)) ((?i, ?i) # new1)"
        using log log1 by simp
      from final[OF run log' p ent c1 c2] show ?thesis .
    next
      case noemit: False
      have first: "walk_first env t seq ?i st = Inr (Continue on us cur nxt st)"
        using notNR notlt noemit on E
        by (auto simp: walk_first_def Let_def cur_def' prev' nxt_def[symmetric] us_def)
      have ready: "loop_ready env ?tbl seq (?i + 1) on us cur nxt st"
        unfolding loop_ready_def
      proof (intro conjI impI)
        assume o: on
        show "idx us < ?i + 1" using us_i[OF o] by simp
        show "\<forall>j. idx us \<le> j \<and> j < ?i + 1 \<longrightarrow> seq ! j \<noteq> ?N"
        proof (intro allI impI)
          fix j assume "idx us \<le> j \<and> j < ?i + 1"
          with us_i[OF o] have "j = ?i" by simp
          with valid_i k show "seq ! j \<noteq> ?N" by simp
        qed
        show "\<forall>j. idx us \<le> j \<and> j < ?i + 1 \<longrightarrow> \<not> unitig_end env ?tbl seq j"
        proof (intro allI impI)
          fix j assume "idx us \<le> j \<and> j < ?i + 1"
          with us_i[OF o] have "j = ?i" by simp
          with ue noemit o show "\<not> unitig_end env ?tbl seq j" by simp
        qed
      qed (use more nxt valid_i1 in \<open>simp_all add: cur_def\<close>)
      from walk_rest_spec[OF k sym agree ready, of t right_end] obtain r st' new where
        rest: "walk_rest env t seq right_end (?i + 1) on us cur nxt st = Inr (r, st')"
        and log: "unitig_log st' = unitig_log st @ map (\<lambda>(s, e). (t, s, e)) new"
        and post: "walk_post env ?tbl seq right_end (?i + 1) on (idx us) r new"
        by blast
      from post have p: "?i + 1 + ?k \<le> r" "r \<le> length seq"
          "\<forall>j. ?i + 1 \<le> j \<and> j < r \<longrightarrow> seq ! j \<noteq> ?N"
          "r = length seq \<or> seq ! r = ?N \<or> right_end + ?k < r"
        and pe: "\<forall>(s, e) \<in> set new. s \<le> e \<and> e + ?k \<le> r \<and> unitig_end env ?tbl seq e
            \<and> (\<forall>j. s \<le> j \<and> j < e \<longrightarrow> \<not> unitig_end env ?tbl seq j)
            \<and> (on \<and> s = idx us \<or> ?i + 1 \<le> s \<and> s \<le> right_end \<and> starts_at env ?tbl seq s)"
        and pp: "on \<longrightarrow> (\<exists>e. (idx us, e) \<in> set new)"
        and pc: "\<forall>s. ?i + 1 \<le> s \<and> s \<le> right_end \<and> s + ?k \<le> r \<and> starts_at env ?tbl seq s
                  \<longrightarrow> (\<exists>e. (s, e) \<in> set new)"
        by (simp_all add: walk_post_def)
      have run: "output_maximal_unitigs_gfa_walk env t seq right_end ?i st = Inr (r, st')"
        using first rest by (simp add: output_maximal_unitigs_gfa_walk_def)
      have ent: "\<forall>(s, e) \<in> set new. s \<le> e \<and> e + ?k \<le> r \<and> unitig_end env ?tbl seq e
            \<and> (\<forall>j. s \<le> j \<and> j < e \<longrightarrow> \<not> unitig_end env ?tbl seq j)
            \<and> (on \<and> s = ?i \<or> ?i + 1 \<le> s \<and> s \<le> right_end \<and> starts_at env ?tbl seq s)"
        using pe us_i by fastforce
      have c1: "on \<longrightarrow> (\<exists>e. (?i, e) \<in> set new)" using pp us_i by auto
      from final[OF run log p ent c1 pc] show ?thesis .
    qed
  qed
qed

text \<open>
  The first shard of \<open>ACGTACGTAC\<close> on two threads, \<open>[0, 3]\<close>: one unitig, from the k-mer
  at 0 to the k-mer at 7, beyond the right end of the shard; the walker returns 10, the
  length of the sequence.
\<close>

theorem walker_overshoots_witness:
  "\<not> isl (output_maximal_unitigs_gfa_walk example_env 0 ''ACGTACGTAC'' 3 0 example_state)
   \<and> fst (projr (output_maximal_unitigs_gfa_walk example_env 0 ''ACGTACGTAC'' 3 0 example_state)) = 10
   \<and> unitig_log (snd (projr (output_maximal_unitigs_gfa_walk example_env 0 ''ACGTACGTAC'' 3 0 example_state)))
       = [(0, 0, 7)]
   \<and> unitig_start example_env example_table ''ACGTACGTAC'' 0
   \<and> unitig_end example_env example_table ''ACGTACGTAC'' 7"
proof -
  let ?X = "output_maximal_unitigs_gfa_walk example_env 0 ''ACGTACGTAC'' 3 0 example_state"
  have k: "0 < kmer_len example_env" by (simp add: example_env_def)
  have sym: "symbols_known ''ACGTACGTAC''" by (simp add: symbols_known_def nucleotide_def)
  have agree: "predicates_agree example_env" by (auto simp: predicates_agree_def example_env_def)
  have valid: "valid_kmer_at example_env ''ACGTACGTAC'' 0" by code_simp
  have inside: "(0::nat) \<le> 3" by simp
  have ev: "\<not> isl ?X" "fst (projr ?X) = 10" "unitig_log (snd (projr ?X)) = [(0, 0, 7)]"
    by code_simp+
  have tbl: "Vertices example_state = example_table" by (simp add: example_state_def fresh_CdBG_def)
  have log0: "unitig_log example_state = []" by (simp add: example_state_def fresh_CdBG_def)
  from walker_overshoots[OF k sym agree valid inside, of 0 example_state] obtain r st' new where
    run: "?X = Inr (r, st')"
    and log: "unitig_log st' = unitig_log example_state @ map (\<lambda>(s, e). (0, s, e)) new"
    and "0 + kmer_len example_env \<le> r" "r \<le> length ''ACGTACGTAC''"
    and "\<forall>j. 0 \<le> j \<and> j < r \<longrightarrow> ''ACGTACGTAC'' ! j \<noteq> PLACEHOLDER_NUCLEOTIDE"
    and "r = length ''ACGTACGTAC'' \<or> ''ACGTACGTAC'' ! r = PLACEHOLDER_NUCLEOTIDE \<or> 3 + kmer_len example_env < r"
    and ent: "\<forall>(s, e) \<in> set new. 0 \<le> s \<and> s \<le> 3 \<and> s \<le> e \<and> e + kmer_len example_env \<le> r
            \<and> unitig_start example_env (Vertices example_state) ''ACGTACGTAC'' s
            \<and> unitig_end example_env (Vertices example_state) ''ACGTACGTAC'' e
            \<and> (\<forall>j. s \<le> j \<and> j < e \<longrightarrow> \<not> unitig_end example_env (Vertices example_state) ''ACGTACGTAC'' j)"
    and "\<forall>s. 0 \<le> s \<and> s \<le> 3 \<and> s + kmer_len example_env \<le> r
              \<and> unitig_start example_env (Vertices example_state) ''ACGTACGTAC'' s \<longrightarrow> (\<exists>e. (s, e) \<in> set new)"
    by (elim exE conjE)
  from run have "snd (projr ?X) = st'" by simp
  with ev(3) log log0 have m: "map (\<lambda>(s, e). (0::nat, s, e)) new = [(0, 0, 7)]" by simp
  then obtain x where new: "new = [x]" by (cases new) auto
  with m have "x = (0, 7)" by (cases x) simp
  with new ent have "unitig_start example_env (Vertices example_state) ''ACGTACGTAC'' 0"
    "unitig_end example_env (Vertices example_state) ''ACGTACGTAC'' 7" by simp_all
  then have "unitig_start example_env example_table ''ACGTACGTAC'' 0"
    "unitig_end example_env example_table ''ACGTACGTAC'' 7" unfolding tbl .
  with ev show ?thesis by simp
qed

end
